theory Spec2Isabelle
  imports
    Main
    "HOL-Library.Multiset"
    "HOL-Library.List_Lexorder"
    "HOL-Library.Sublist"
begin

section \<open>Python strings, values and exceptions\<close>

text \<open>
  A Python \<^verbatim>\<open>str\<close> is a sequence of Unicode code points, so a string is a list of
  natural numbers (the code points). \<open>str\<close> writes an ASCII literal.
  Strings compare as Python compares them: lexicographically by code point, a proper
  prefix first (the order of \<open>HOL-Library.List_Lexorder\<close> on \<open>nat list\<close>).
\<close>

type_synonym pystr = "nat list"

definition str :: "string \<Rightarrow> pystr" where
  "str s = map of_char s"

text \<open>The exceptions the modelled code can raise; each carries what the source puts
  in it (the message, the missing key, the path).\<close>

datatype py_error =
    TypeError
  | ValueError pystr
  | KeyError pystr
  | IndexError
  | AttributeError
  | UnboundLocalError
  | FileNotFoundError pystr

text \<open>
  The values that occur as cells of a record and as tokens of a sort key:
  \<^verbatim>\<open>None\<close> (the absence marker), an \<^verbatim>\<open>int\<close> and a \<^verbatim>\<open>str\<close>.
\<close>

datatype pyval = PNone | PInt int | PStr pystr

text \<open>
  Python's \<^verbatim>\<open><\<close> on two such values: defined between two ints and between two
  strs, \<^verbatim>\<open>TypeError\<close> otherwise (also for \<^verbatim>\<open>None < None\<close>).
\<close>

fun py_lt :: "pyval \<Rightarrow> pyval \<Rightarrow> py_error + bool" where
  "py_lt (PInt a) (PInt b) = Inr (a < b)"
| "py_lt (PStr a) (PStr b) = Inr (a < b)"
| "py_lt _ _ = Inl TypeError"

text \<open>
  Python's \<^verbatim>\<open><\<close> on two lists: the first position where the elements are not
  \<^verbatim>\<open>==\<close> decides, by \<^verbatim>\<open><\<close> on the two elements (which may raise); with no such
  position the shorter list is the smaller.
\<close>

fun py_list_lt :: "pyval list \<Rightarrow> pyval list \<Rightarrow> py_error + bool" where
  "py_list_lt [] [] = Inr False"
| "py_list_lt [] (y # ys) = Inr True"
| "py_list_lt (x # xs) [] = Inr False"
| "py_list_lt (x # xs) (y # ys) = (if x = y then py_list_lt xs ys else py_lt x y)"

definition comparable :: "pyval list \<Rightarrow> pyval list \<Rightarrow> bool" where
  "comparable a b = (case py_list_lt a b of Inl _ \<Rightarrow> False | Inr _ \<Rightarrow> True)"

text \<open>
  A linear order on \<open>pyval\<close> that extends Python's partial one (\<^verbatim>\<open>None\<close> before ints
  before strs). It is only a device to express "sorted": wherever Python's comparison of
  two keys is defined, it agrees with this order (lemma \<open>py_list_lt_agrees\<close>), and the
  sort below raises wherever it is not.
\<close>

fun pyval_less :: "pyval \<Rightarrow> pyval \<Rightarrow> bool" where
  "pyval_less PNone PNone = False"
| "pyval_less PNone _ = True"
| "pyval_less (PInt a) PNone = False"
| "pyval_less (PInt a) (PInt b) = (a < b)"
| "pyval_less (PInt a) (PStr b) = True"
| "pyval_less (PStr a) (PStr b) = (a < b)"
| "pyval_less (PStr a) _ = False"

instantiation pyval :: linorder
begin

definition less_pyval :: "pyval \<Rightarrow> pyval \<Rightarrow> bool" where
  "less_pyval x y = pyval_less x y"

definition less_eq_pyval :: "pyval \<Rightarrow> pyval \<Rightarrow> bool" where
  "less_eq_pyval x y = (pyval_less x y \<or> x = y)"

instance
proof
  fix x y z :: pyval
  show "(x < y) = (x \<le> y \<and> \<not> y \<le> x)"
    by (cases x; cases y) (auto simp: less_pyval_def less_eq_pyval_def)
  show "x \<le> x"
    by (simp add: less_eq_pyval_def)
  show "x \<le> y \<Longrightarrow> y \<le> z \<Longrightarrow> x \<le> z"
    by (cases x; cases y; cases z) (auto simp: less_eq_pyval_def)
  show "x \<le> y \<Longrightarrow> y \<le> x \<Longrightarrow> x = y"
    by (cases x; cases y) (auto simp: less_eq_pyval_def)
  show "x \<le> y \<or> y \<le> x"
    by (cases x; cases y) (auto simp: less_eq_pyval_def)
qed

end

text \<open>
  \<^verbatim>\<open>list.sort(key=...)\<close> and \<^verbatim>\<open>sorted(..., key=...)\<close> on keys that are lists of
  values. Python's sort is stable and raises \<^verbatim>\<open>TypeError\<close> when a comparison it makes
  meets two keys whose comparison raises. Which pairs its merge sort compares depends
  on the runs of the input; the model raises as soon as some pair of keys of the list
  is not comparable. That is exact for lists of at most two elements and for every
  list whose keys are pairwise comparable, which is all the theorems below rely on.
\<close>

definition py_sort :: "('a \<Rightarrow> pyval list) \<Rightarrow> 'a list \<Rightarrow> py_error + 'a list" where
  "py_sort key xs =
     (if list_all (\<lambda>a. list_all (\<lambda>b. comparable (key a) (key b)) xs) xs
      then Inr (sort_key key xs) else Inl TypeError)"

section \<open>\<^verbatim>\<open>itertools.zip_longest\<close>\<close>

text \<open>Two iterables, as \<^verbatim>\<open>complete_record\<close> uses it: the shorter one is filled with
  \<^verbatim>\<open>None\<close>.\<close>

fun zip_longest2 :: "'a list \<Rightarrow> 'b list \<Rightarrow> ('a option \<times> 'b option) list" where
  "zip_longest2 [] [] = []"
| "zip_longest2 (x # xs) [] = (Some x, None) # zip_longest2 xs []"
| "zip_longest2 [] (y # ys) = (None, Some y) # zip_longest2 [] ys"
| "zip_longest2 (x # xs) (y # ys) = (Some x, Some y) # zip_longest2 xs ys"

section \<open>\<^verbatim>\<open>ProcessData.complete_record\<close>: the loop\<close>

text \<open>
  \<^verbatim>\<open>
  for data, is_header in zip_longest(record, header_comparison):
      record_completed.append(data if is_header else None)
  \<close>
  The flag of a position past the end of \<^verbatim>\<open>header_comparison\<close> is the fill value
  \<^verbatim>\<open>None\<close>, which is falsy; the cell of a position past the end of the record is the
  fill value \<^verbatim>\<open>None\<close>.
\<close>

definition complete_cell :: "pyval option \<times> bool option \<Rightarrow> pyval" where
  "complete_cell p =
     (case p of (data, is_header) \<Rightarrow>
        if is_header = Some True then (case data of None \<Rightarrow> PNone | Some d \<Rightarrow> d) else PNone)"

definition complete_cells :: "pyval list \<Rightarrow> bool list \<Rightarrow> pyval list" where
  "complete_cells row header_comparison = map complete_cell (zip_longest2 row header_comparison)"

text \<open>Filtering a padded record down to the positions where the bitmap is true.\<close>

definition filter_present :: "pyval list \<Rightarrow> bool list \<Rightarrow> pyval list" where
  "filter_present padded bitmap = map fst (filter snd (zip padded bitmap))"

text \<open>Any number of iterables, as the engine uses it on the record sequences of the
  sources: one tuple per round, holding for each sequence its next element, or
  \<^verbatim>\<open>None\<close> once that sequence is exhausted; the rounds end when every sequence is
  exhausted.\<close>

function zip_longest :: "'a list list \<Rightarrow> 'a option list list" where
  "zip_longest xss =
     (if list_all (\<lambda>xs. xs = []) xss then []
      else map (\<lambda>xs. case xs of [] \<Rightarrow> None | x # _ \<Rightarrow> Some x) xss # zip_longest (map tl xss))"
  by pat_completeness auto
termination
proof (relation "measure (\<lambda>xss. sum_list (map length xss))")
  show "wf (measure (\<lambda>xss. sum_list (map length xss)))" by simp
next
  fix xss :: "'a list list"
  assume "\<not> list_all (\<lambda>xs. xs = []) xss"
  then have "sum_list (map length (map tl xss)) < sum_list (map length xss)"
  proof (induction xss)
    case Nil
    then show ?case by simp
  next
    case (Cons xs xss)
    have le: "sum_list (map length (map tl yss)) \<le> sum_list (map length yss)"
      for yss :: "'a list list"
      by (induction yss) auto
    show ?case
    proof (cases "xs = []")
      case True
      with Cons show ?thesis by simp
    next
      case False
      then have "length (tl xs) < length xs" by (cases xs) auto
      with le [of xss] show ?thesis by simp
    qed
  qed
  then show "(map tl xss, xss) \<in> measure (\<lambda>xss. sum_list (map length xss))" by simp
qed

declare zip_longest.simps [simp del]

section \<open>Column key ordering (\<^verbatim>\<open>functions.py\<close>)\<close>

subsection \<open>The string methods the key uses\<close>

text \<open>
  \<^verbatim>\<open>[0-9]\<close> in the regular expression matches the ten ASCII digits only.
  \<^verbatim>\<open>str.isdigit\<close> and \<^verbatim>\<open>int\<close> follow the Unicode tables, of which the model holds:
  the ASCII digits and the Arabic-Indic digits U+0660..U+0669 (decimal digits, which
  \<^verbatim>\<open>int\<close> accepts), and the superscript digits U+00B2, U+00B3, U+00B9 (digits for
  \<^verbatim>\<open>isdigit\<close>, refused by \<^verbatim>\<open>int\<close>). Every other code point counts as no digit, which
  is exact on ASCII. \<^verbatim>\<open>str.upper\<close> is modelled on ASCII (\<^verbatim>\<open>a-z\<close> to \<^verbatim>\<open>A-Z\<close>) and leaves
  other code points as they are.
\<close>

definition ascii_digit :: "nat \<Rightarrow> bool" where
  "ascii_digit c \<longleftrightarrow> 48 \<le> c \<and> c \<le> 57"

definition decimal_value :: "nat \<Rightarrow> nat option" where
  "decimal_value c =
     (if 48 \<le> c \<and> c \<le> 57 then Some (c - 48)
      else if 1632 \<le> c \<and> c \<le> 1641 then Some (c - 1632)
      else None)"

definition digit_char :: "nat \<Rightarrow> bool" where
  "digit_char c \<longleftrightarrow> decimal_value c \<noteq> None \<or> c = 178 \<or> c = 179 \<or> c = 185"

definition isdigit :: "pystr \<Rightarrow> bool" where
  "isdigit s \<longleftrightarrow> s \<noteq> [] \<and> list_all digit_char s"

text \<open>\<^verbatim>\<open>int(s)\<close> on a string without sign, blanks or underscores (the key calls it
  only where \<^verbatim>\<open>isdigit\<close> holds).\<close>

definition py_int :: "pystr \<Rightarrow> py_error + int" where
  "py_int s =
     (if s \<noteq> [] \<and> list_all (\<lambda>c. decimal_value c \<noteq> None) s
      then Inr (foldl (\<lambda>n c. 10 * n + (case decimal_value c of None \<Rightarrow> 0 | Some d \<Rightarrow> int d)) 0 s)
      else Inl (ValueError (str ''invalid literal for int() with base 10'')))"

definition upper_char :: "nat \<Rightarrow> nat" where
  "upper_char c = (if 97 \<le> c \<and> c \<le> 122 then c - 32 else c)"

definition upper :: "pystr \<Rightarrow> pystr" where
  "upper s = map upper_char s"

text \<open>\<^verbatim>\<open>re.split('([0-9]+)', data)\<close>: the text before the first run of ASCII digits,
  that run, the text up to the next run, and so on; the last element is the text after
  the last run. The pieces between runs may be empty.\<close>

function re_split_digits :: "pystr \<Rightarrow> pystr list" where
  "re_split_digits s =
     (if dropWhile (\<lambda>c. \<not> ascii_digit c) s = [] then [takeWhile (\<lambda>c. \<not> ascii_digit c) s]
      else takeWhile (\<lambda>c. \<not> ascii_digit c) s
         # takeWhile ascii_digit (dropWhile (\<lambda>c. \<not> ascii_digit c) s)
         # re_split_digits (dropWhile ascii_digit (dropWhile (\<lambda>c. \<not> ascii_digit c) s)))"
  by pat_completeness auto
termination
proof (relation "measure length")
  show "wf (measure length)" by simp
next
  fix s :: pystr
  let ?rest = "dropWhile (\<lambda>c. \<not> ascii_digit c) s"
  assume ne: "?rest \<noteq> []"
  then have "ascii_digit (hd ?rest)"
    using hd_dropWhile [of "\<lambda>c. \<not> ascii_digit c" s] by simp
  with ne have "length (dropWhile ascii_digit ?rest) < length ?rest"
    by (cases ?rest) (auto simp: le_imp_less_Suc length_dropWhile_le)
  moreover have "length ?rest \<le> length s"
    by (rule length_dropWhile_le)
  ultimately show "(dropWhile ascii_digit ?rest, s) \<in> measure length"
    by simp
qed

declare re_split_digits.simps [simp del]

subsection \<open>\<^verbatim>\<open>convert\<close>, the key and \<^verbatim>\<open>sort_alphanumeric\<close>\<close>

text \<open>Mapping a function that may raise over a list, left to right: the first
  exception ends it (a list comprehension).\<close>

fun map_err :: "('a \<Rightarrow> py_error + 'b) \<Rightarrow> 'a list \<Rightarrow> py_error + 'b list" where
  "map_err f [] = Inr []"
| "map_err f (x # xs) =
     (case f x of Inl e \<Rightarrow> Inl e
      | Inr y \<Rightarrow> (case map_err f xs of Inl e \<Rightarrow> Inl e | Inr ys \<Rightarrow> Inr (y # ys)))"

text \<open>\<^verbatim>\<open>convert = lambda element: int(element) if element.isdigit() else element.upper()\<close>\<close>

definition convert :: "pystr \<Rightarrow> py_error + pyval" where
  "convert element =
     (if isdigit element
      then (case py_int element of Inl e \<Rightarrow> Inl e | Inr n \<Rightarrow> Inr (PInt n))
      else Inr (PStr (upper element)))"

text \<open>\<^verbatim>\<open>alphanum_key = lambda data: [convert(header) for header in re.split('([0-9]+)', data)]\<close>\<close>

definition alphanum_key :: "pystr \<Rightarrow> py_error + pyval list" where
  "alphanum_key data = map_err convert (re_split_digits data)"

text \<open>
  \<^verbatim>\<open>sorted(strings, key=alphanum_key, reverse=descending)\<close>: the keys are computed
  first, for every string in order; with \<^verbatim>\<open>reverse\<close> the list is reversed, sorted
  (stably, ascending) and reversed again.
\<close>

definition sort_alphanumeric :: "pystr list \<Rightarrow> bool \<Rightarrow> py_error + pystr list" where
  "sort_alphanumeric strings descending =
     (case map_err alphanum_key strings of Inl e \<Rightarrow> Inl e
      | Inr keys \<Rightarrow>
         (case py_sort fst (if descending then rev (zip keys strings) else zip keys strings) of
            Inl e \<Rightarrow> Inl e
          | Inr sorted_pairs \<Rightarrow>
              Inr (map snd (if descending then rev sorted_pairs else sorted_pairs))))"

text \<open>
  \<^verbatim>\<open>
  couple = list(zip(messy_file_headers, record))
  couple.sort(key=lambda data: [convert(c) for c in re.split('([0-9]+)', data[0])])
  _, ordered_record = zip(*couple)
  return list(ordered_record)
  \<close>
  \<^verbatim>\<open>zip\<close> stops at the shorter of the two; unpacking \<^verbatim>\<open>zip(*couple)\<close> of an empty
  \<^verbatim>\<open>couple\<close> into two names raises \<^verbatim>\<open>ValueError\<close>.
\<close>

definition order_record :: "pyval list \<Rightarrow> pystr list \<Rightarrow> py_error + pyval list" where
  "order_record row messy_file_headers =
     (case map_err (\<lambda>data. alphanum_key (fst data)) (zip messy_file_headers row) of
        Inl e \<Rightarrow> Inl e
      | Inr keys \<Rightarrow>
         (case py_sort fst (zip keys (zip messy_file_headers row)) of
            Inl e \<Rightarrow> Inl e
          | Inr couple \<Rightarrow>
              if couple = []
              then Inl (ValueError (str ''not enough values to unpack (expected 2, got 0)''))
              else Inr (map (\<lambda>p. snd (snd p)) couple)))"

section \<open>The file system and the Output Sink (\<^verbatim>\<open>file_generators.py\<close>, \<^verbatim>\<open>WriteData\<close>)\<close>

text \<open>
  The file system as the program sees it: the directories that exist and the text of
  each file, both named by the path string the program spells (no normalisation).
  \<^verbatim>\<open>open(file, 'w')\<close> and \<^verbatim>\<open>open(file, 'a')\<close> create the file when its directory
  exists and raise \<^verbatim>\<open>FileNotFoundError\<close> when it does not.
\<close>

record fs =
  dirs :: "pystr set"
  files :: "pystr \<rightharpoonup> pystr"

definition dirname :: "pystr \<Rightarrow> pystr" where
  "dirname p = rev (dropWhile (\<lambda>c. c \<noteq> 47) (rev p))"

definition parent_directory :: "pystr \<Rightarrow> pystr" where
  "parent_directory d = dirname (if d \<noteq> [] \<and> last d = 47 then butlast d else d)"

definition write_file :: "fs \<Rightarrow> pystr \<Rightarrow> pystr \<Rightarrow> py_error + fs" where
  "write_file s file_path text =
     (if dirname file_path \<in> dirs s then Inr (s\<lparr>files := (files s)(file_path \<mapsto> text)\<rparr>)
      else Inl (FileNotFoundError file_path))"

definition append_file :: "fs \<Rightarrow> pystr \<Rightarrow> pystr \<Rightarrow> py_error + fs" where
  "append_file s file_path text =
     (if dirname file_path \<in> dirs s
      then Inr (s\<lparr>files := (files s)(file_path \<mapsto>
                  (case files s file_path of None \<Rightarrow> [] | Some old \<Rightarrow> old) @ text)\<rparr>)
      else Inl (FileNotFoundError file_path))"

text \<open>
  \<^verbatim>\<open>
  if not os.path.exists(directory):
      try: os.mkdir(directory)
      except FileExistsError as file_error: print(...)
  \<close>
  \<^verbatim>\<open>os.mkdir\<close> raises \<^verbatim>\<open>FileNotFoundError\<close> when the parent directory is missing,
  which is not caught.
\<close>

definition create_result_directory :: "fs \<Rightarrow> pystr \<Rightarrow> py_error + fs" where
  "create_result_directory s directory =
     (if directory \<in> dirs s then Inr s
      else if parent_directory directory \<in> dirs s
      then Inr (s\<lparr>dirs := insert directory (dirs s)\<rparr>)
      else Inl (FileNotFoundError directory))"

subsection \<open>\<^verbatim>\<open>TSVFileGenerator\<close>\<close>

text \<open>A generator object holds its attribute \<^verbatim>\<open>file\<close>:
  \<^verbatim>\<open>self.file = f'{directory}{file_name}.{extension}'\<close>.\<close>

datatype generator_class = TSVFileGenerator_class

datatype file_generator = TSVFileGenerator pystr

fun file_of :: "file_generator \<Rightarrow> pystr" where
  "file_of (TSVFileGenerator f) = f"

definition new_generator :: "generator_class \<Rightarrow> pystr \<Rightarrow> pystr \<Rightarrow> pystr \<Rightarrow> file_generator" where
  "new_generator c directory file_name extension =
     (case c of TSVFileGenerator_class \<Rightarrow> TSVFileGenerator (directory @ file_name @ [46] @ extension))"

text \<open>\<^verbatim>\<open>str(n)\<close> for an int, and the text an f-string puts for a cell:
  \<^verbatim>\<open>f"{value if value is not None else ''}"\<close>.\<close>

fun decimal_digits :: "nat \<Rightarrow> pystr" where
  "decimal_digits n = (if n < 10 then [48 + n] else decimal_digits (n div 10) @ [48 + n mod 10])"

declare decimal_digits.simps [simp del]

definition str_of_int :: "int \<Rightarrow> pystr" where
  "str_of_int i = (if i < 0 then 45 # decimal_digits (nat (- i)) else decimal_digits (nat i))"

fun cell_text :: "pyval \<Rightarrow> pystr" where
  "cell_text PNone = []"
| "cell_text (PInt i) = str_of_int i"
| "cell_text (PStr s) = s"

text \<open>\<^verbatim>\<open>sep.join(parts)\<close>\<close>

fun join :: "pystr \<Rightarrow> pystr list \<Rightarrow> pystr" where
  "join sep [] = []"
| "join sep [x] = x"
| "join sep (x # y # ys) = x @ sep @ join sep (y # ys)"

text \<open>\<^verbatim>\<open>set_headers\<close>: the file is opened for writing (truncated), the headers are
  joined by tabs and a newline follows.\<close>

definition set_headers :: "fs \<Rightarrow> file_generator \<Rightarrow> pystr list \<Rightarrow> py_error + fs" where
  "set_headers s g hdrs = write_file s (file_of g) (join [9] hdrs @ [10])"

text \<open>
  \<^verbatim>\<open>
  with open(self.file, 'a', encoding="utf-8") as file:
      num_records: int = len(data) - 1
      for records_counter, line in enumerate(data):
          for value in line:
              file.write(f"{value if value is not None else ''}\t")
          if records_counter < num_records:
              file.write('\n')
  \<close>
  \<open>set_data_rows\<close> is the outer loop, with the counter of \<^verbatim>\<open>enumerate\<close>; it returns
  the text written.
\<close>

fun set_data_rows :: "int \<Rightarrow> int \<Rightarrow> pyval list list \<Rightarrow> pystr" where
  "set_data_rows num_records records_counter [] = []"
| "set_data_rows num_records records_counter (line # rest) =
     concat (map (\<lambda>v. cell_text v @ [9]) line)
     @ (if records_counter < num_records then [10] else [])
     @ set_data_rows num_records (records_counter + 1) rest"

definition set_data :: "fs \<Rightarrow> file_generator \<Rightarrow> pyval list list \<Rightarrow> py_error + fs" where
  "set_data s g data = append_file s (file_of g) (set_data_rows (int (length data) - 1) 0 data)"

text \<open>What the specification says of \<open>appendBatch\<close>: every cell followed by a tab, a
  newline between consecutive records of the batch, none after the last.\<close>

definition row_spec :: "pyval list \<Rightarrow> pystr" where
  "row_spec row = concat (map (\<lambda>v. cell_text v @ [9]) row)"

definition appendBatch_spec :: "pyval list list \<Rightarrow> pystr" where
  "appendBatch_spec records = join [10] (map row_spec records)"

subsection \<open>\<^verbatim>\<open>FileGeneratorFactory\<close>\<close>

text \<open>
  The registry \<^verbatim>\<open>_formats\<close>, a dict from extension to generator class; a registered
  value can be \<^verbatim>\<open>None\<close>.
  \<^verbatim>\<open>
  file_generator = self._formats[extension]
  if file_generator is None:
      raise ValueError(f"The extension '{extension}' is not supported.")
  return file_generator(directory, file_name, extension)
  \<close>
  Subscripting a dict with a key it does not hold raises \<^verbatim>\<open>KeyError\<close>.
\<close>

type_synonym generator_formats = "pystr \<rightharpoonup> generator_class option"

definition FileGeneratorFactory_init :: generator_formats where
  "FileGeneratorFactory_init = [str ''tsv'' \<mapsto> Some TSVFileGenerator_class]"

definition register :: "generator_formats \<Rightarrow> pystr \<Rightarrow> generator_class option \<Rightarrow> generator_formats" where
  "register formats extension file_generator = formats(extension \<mapsto> file_generator)"

definition not_supported :: "pystr \<Rightarrow> pystr" where
  "not_supported extension = str ''The extension '' @ [39] @ extension @ [39] @ str '' is not supported.''"

definition get_file_generator ::
  "generator_formats \<Rightarrow> pystr \<Rightarrow> pystr \<Rightarrow> pystr \<Rightarrow> py_error + file_generator" where
  "get_file_generator formats directory file_name extension =
     (case formats extension of
        None \<Rightarrow> Inl (KeyError extension)
      | Some None \<Rightarrow> Inl (ValueError (not_supported extension))
      | Some (Some c) \<Rightarrow> Inr (new_generator c directory file_name extension))"

text \<open>The reader side, for comparison (\<^verbatim>\<open>FileReaderFactory.get_file_reader\<close>): it looks
  the extension up with \<^verbatim>\<open>self._formats.get(extension)\<close>, which gives \<^verbatim>\<open>None\<close> for a
  key the dict does not hold, and so raises \<^verbatim>\<open>ValueError\<close>.\<close>

datatype reader_class = CSVFileReader_class | JSONFileReader_class | XMLFileReader_class

definition FileReaderFactory_init :: "pystr \<rightharpoonup> reader_class option" where
  "FileReaderFactory_init =
     [str ''csv'' \<mapsto> Some CSVFileReader_class,
      str ''json'' \<mapsto> Some JSONFileReader_class,
      str ''xml'' \<mapsto> Some XMLFileReader_class]"

definition get_file_reader_class ::
  "(pystr \<rightharpoonup> reader_class option) \<Rightarrow> pystr \<Rightarrow> py_error + reader_class" where
  "get_file_reader_class formats extension =
     (case formats extension of
        None \<Rightarrow> Inl (ValueError (not_supported extension))
      | Some None \<Rightarrow> Inl (ValueError (not_supported extension))
      | Some (Some c) \<Rightarrow> Inr c)"

subsection \<open>\<^verbatim>\<open>WriteData\<close>\<close>

text \<open>
  \<^verbatim>\<open>
  self.directory = f'{base_directory}result/'
  try:
      self._file_generator = FileGeneratorFactory().get_file_generator(self.directory, file_name, extension)
  except ValueError as no_registered:
      print(f'Error: {no_registered.args[0]}')
  \<close>
  The constructor returns the object and the lines it printed; after a caught
  \<^verbatim>\<open>ValueError\<close> the attribute \<^verbatim>\<open>_file_generator\<close> is not set (\<open>None\<close> below). Any other
  exception leaves the constructor.
\<close>

record WriteData =
  directory :: pystr
  file_generator :: "file_generator option"

definition default_base_directory :: pystr where
  "default_base_directory = str ''../data/''"

definition default_file_name :: pystr where
  "default_file_name = str ''result''"

definition default_extension :: pystr where
  "default_extension = str ''tsv''"

definition WriteData_init :: "pystr \<Rightarrow> pystr \<Rightarrow> pystr \<Rightarrow> py_error + (WriteData \<times> pystr list)" where
  "WriteData_init base_directory file_name extension =
     (case get_file_generator FileGeneratorFactory_init (base_directory @ str ''result/'') file_name extension of
        Inl (ValueError msg) \<Rightarrow>
          Inr (\<lparr>directory = base_directory @ str ''result/'', file_generator = None\<rparr>,
               [str ''Error: '' @ msg])
      | Inl e \<Rightarrow> Inl e
      | Inr g \<Rightarrow>
          Inr (\<lparr>directory = base_directory @ str ''result/'', file_generator = Some g\<rparr>, []))"

text \<open>Reading an attribute that was never set raises \<^verbatim>\<open>AttributeError\<close>.\<close>

definition write_headers :: "fs \<Rightarrow> WriteData \<Rightarrow> pystr list \<Rightarrow> py_error + fs" where
  "write_headers s w hdrs =
     (case create_result_directory s (directory w) of
        Inl e \<Rightarrow> Inl e
      | Inr s' \<Rightarrow>
          (case file_generator w of None \<Rightarrow> Inl AttributeError | Some g \<Rightarrow> set_headers s' g hdrs))"

definition write_data :: "fs \<Rightarrow> WriteData \<Rightarrow> pyval list list \<Rightarrow> py_error + fs" where
  "write_data s w data =
     (case file_generator w of None \<Rightarrow> Inl AttributeError | Some g \<Rightarrow> set_data s g data)"

definition output_file :: "pystr \<Rightarrow> pystr" where
  "output_file base_directory =
     base_directory @ str ''result/'' @ default_file_name @ [46] @ default_extension"

section \<open>\<^verbatim>\<open>ProcessData\<close>: schema reconciliation\<close>

text \<open>The entry of \<^verbatim>\<open>file_processing_data\<close> for one file, and the attributes of a
  \<^verbatim>\<open>ProcessData\<close> object.\<close>

record file_info =
  header_comparison :: "bool list"
  rearrangement_needed :: bool

record ProcessData =
  headers :: "pystr list"
  file_processing_data :: "pystr \<rightharpoonup> file_info"
  path :: pystr
  file_names :: "pystr list"
  headers_by_file :: "pystr list list"

definition ProcessData_init :: "pystr \<Rightarrow> ProcessData" where
  "ProcessData_init p =
     \<lparr>headers = [], file_processing_data = Map.empty, path = p, file_names = [],
      headers_by_file = []\<rparr>"

text \<open>
  \<^verbatim>\<open>sort_headers\<close>. The loop over \<^verbatim>\<open>_headers_by_file\<close>: the first list seeds the set
  unfiltered, every later header is added unless the set holds it. The state is the
  set, \<open>None\<close> while \<^verbatim>\<open>set_headers\<close> is still unbound (\<^verbatim>\<open>is_first_list\<close> true). With no
  list at all the name is read unbound after the loop: \<^verbatim>\<open>UnboundLocalError\<close>.

  \<^verbatim>\<open>list(set_headers)\<close> lists the set in the order Python iterates it, which depends on
  the hashes of the strings; the model takes that order as the parameter \<open>set_order\<close>,
  and \<open>listing\<close> says it is an enumeration without repetition.
\<close>

fun gather_headers :: "pystr set option \<Rightarrow> pystr list list \<Rightarrow> pystr set option" where
  "gather_headers seen [] = seen"
| "gather_headers None (file_headers # rest) = gather_headers (Some (set file_headers)) rest"
| "gather_headers (Some seen) (file_headers # rest) =
     gather_headers
       (Some (fold (\<lambda>header S. if header \<notin> S then insert header S else S) file_headers seen))
       rest"

definition listing :: "(pystr set \<Rightarrow> pystr list) \<Rightarrow> bool" where
  "listing set_order \<longleftrightarrow> (\<forall>S. finite S \<longrightarrow> set (set_order S) = S \<and> distinct (set_order S))"

definition sort_headers :: "(pystr set \<Rightarrow> pystr list) \<Rightarrow> ProcessData \<Rightarrow> py_error + ProcessData" where
  "sort_headers set_order pd =
     (case gather_headers None (headers_by_file pd) of
        None \<Rightarrow> Inl UnboundLocalError
      | Some seen \<Rightarrow>
          (case sort_alphanumeric (set_order seen) False of
             Inl e \<Rightarrow> Inl e
           | Inr hdrs \<Rightarrow> Inr (pd\<lparr>headers := hdrs\<rparr>)))"

text \<open>
  \<^verbatim>\<open>make_file_processing_data\<close>: for each file name and its headers, the presence
  bitmap over \<^verbatim>\<open>self.headers\<close> and the flag
  \<^verbatim>\<open>file_headers != sort_alphanumeric(file_headers)\<close>.
\<close>

fun file_processing_loop ::
  "pystr list \<Rightarrow> (pystr \<times> pystr list) list \<Rightarrow> (pystr \<rightharpoonup> file_info) \<Rightarrow> py_error + (pystr \<rightharpoonup> file_info)" where
  "file_processing_loop hdrs [] fpd = Inr fpd"
| "file_processing_loop hdrs ((file_name, file_headers) # rest) fpd =
     (case sort_alphanumeric file_headers False of
        Inl e \<Rightarrow> Inl e
      | Inr sorted_headers \<Rightarrow>
          file_processing_loop hdrs rest
            (fpd(file_name \<mapsto>
               \<lparr>header_comparison = map (\<lambda>header. header \<in> set file_headers) hdrs,
                rearrangement_needed = (file_headers \<noteq> sorted_headers)\<rparr>)))"

definition make_file_processing_data :: "ProcessData \<Rightarrow> py_error + ProcessData" where
  "make_file_processing_data pd =
     (case file_processing_loop (headers pd) (zip (file_names pd) (headers_by_file pd))
             (file_processing_data pd) of
        Inl e \<Rightarrow> Inl e
      | Inr fpd \<Rightarrow> Inr (pd\<lparr>file_processing_data := fpd\<rparr>))"

section \<open>\<^verbatim>\<open>ProcessData\<close>: the record realigner\<close>

text \<open>\<^verbatim>\<open>xs[i]\<close> for an index from \<^verbatim>\<open>enumerate\<close>, and
  \<^verbatim>\<open>self.file_processing_data[self._file_names[index]]\<close>.\<close>

definition nth_err :: "'a list \<Rightarrow> nat \<Rightarrow> py_error + 'a" where
  "nth_err xs i = (if i < length xs then Inr (xs ! i) else Inl IndexError)"

definition file_info_at :: "ProcessData \<Rightarrow> nat \<Rightarrow> py_error + file_info" where
  "file_info_at pd index =
     (case nth_err (file_names pd) index of
        Inl e \<Rightarrow> Inl e
      | Inr file_name \<Rightarrow>
          (case file_processing_data pd file_name of
             None \<Rightarrow> Inl (KeyError file_name)
           | Some info \<Rightarrow> Inr info))"

definition complete_record :: "ProcessData \<Rightarrow> pyval list \<Rightarrow> nat \<Rightarrow> py_error + pyval list" where
  "complete_record pd row file_position =
     (case file_info_at pd file_position of
        Inl e \<Rightarrow> Inl e
      | Inr info \<Rightarrow> Inr (complete_cells row (header_comparison info)))"

text \<open>
  The body of the inner loop of \<^verbatim>\<open>process_data\<close> for one record that is not \<^verbatim>\<open>None\<close>:
  \<^verbatim>\<open>
  if self.file_processing_data[self._file_names[index]]['rearrangement_needed']:
      data = order_record(data, self._headers_by_file[index])
  data = self.complete_record(data, index)
  \<close>
\<close>

definition process_record :: "ProcessData \<Rightarrow> nat \<Rightarrow> pyval list \<Rightarrow> py_error + pyval list" where
  "process_record pd index data =
     (case file_info_at pd index of
        Inl e \<Rightarrow> Inl e
      | Inr info \<Rightarrow>
          (case (if rearrangement_needed info
                 then (case nth_err (headers_by_file pd) index of
                         Inl e \<Rightarrow> Inl e
                       | Inr file_headers \<Rightarrow> order_record data file_headers)
                 else Inr data) of
             Inl e \<Rightarrow> Inl e
           | Inr data' \<Rightarrow> complete_record pd data' index))"

text \<open>\<^verbatim>\<open>for index, data in enumerate(data_tuple): if data is not None: ... sorting.append(data)\<close>\<close>

fun process_tuple ::
  "ProcessData \<Rightarrow> nat \<Rightarrow> pyval list option list \<Rightarrow> pyval list list \<Rightarrow> py_error + pyval list list" where
  "process_tuple pd index [] sorting = Inr sorting"
| "process_tuple pd index (None # rest) sorting = process_tuple pd (Suc index) rest sorting"
| "process_tuple pd index (Some data # rest) sorting =
     (case process_record pd index data of
        Inl e \<Rightarrow> Inl e
      | Inr data' \<Rightarrow> process_tuple pd (Suc index) rest (sorting @ [data']))"

section \<open>\<^verbatim>\<open>ProcessData.process_data\<close>: the merge-sort-spill engine\<close>

text \<open>
  The partial write, inside the loop:
  \<^verbatim>\<open>
  file_writer = WriteData()
  sorting.sort(key=lambda data: data[0:2])
  file_writer.write_data(sorting)
  \<close>
  \<^verbatim>\<open>WriteData()\<close> takes its defaults: base directory \<^verbatim>\<open>'../data/'\<close>, name
  \<^verbatim>\<open>'result'\<close>, extension \<^verbatim>\<open>'tsv'\<close>. (What the program prints is left out of the engine.)
\<close>

definition partial_flush :: "fs \<Rightarrow> pyval list list \<Rightarrow> py_error + fs" where
  "partial_flush s sorting =
     (case WriteData_init default_base_directory default_file_name default_extension of
        Inl e \<Rightarrow> Inl e
      | Inr (file_writer, printed) \<Rightarrow>
          (case py_sort (take 2) sorting of
             Inl e \<Rightarrow> Inl e
           | Inr batch \<Rightarrow> write_data s file_writer batch))"

text \<open>
  One round of \<^verbatim>\<open>for data_tuple in generated_data\<close>. The state is the file system, the
  buffer \<^verbatim>\<open>sorting\<close> and the flag \<^verbatim>\<open>partial_write\<close>. The source compares the length of
  the buffer with the constant 52000; the loop is written for any threshold, so that
  its flush branch can be run on short inputs, and the program runs it at
  \<open>flush_threshold\<close>.
\<close>

definition flush_threshold :: nat where
  "flush_threshold = 52000"

definition round_step ::
  "nat \<Rightarrow> ProcessData \<Rightarrow> pyval list option list \<Rightarrow> fs \<times> pyval list list \<times> bool
     \<Rightarrow> py_error + (fs \<times> pyval list list \<times> bool)" where
  "round_step threshold pd data_tuple st =
     (case st of (s, sorting, partial_write) \<Rightarrow>
        (case (if threshold < length sorting
               then (case partial_flush s sorting of
                       Inl e \<Rightarrow> Inl e
                     | Inr s' \<Rightarrow> Inr (s', [], True))
               else Inr (s, sorting, partial_write)) of
           Inl e \<Rightarrow> Inl e
         | Inr (s1, sorting1, partial_write1) \<Rightarrow>
             (case process_tuple pd 0 data_tuple sorting1 of
                Inl e \<Rightarrow> Inl e
              | Inr sorting2 \<Rightarrow> Inr (s1, sorting2, partial_write1))))"

fun rounds_loop ::
  "nat \<Rightarrow> ProcessData \<Rightarrow> pyval list option list list \<Rightarrow> fs \<times> pyval list list \<times> bool
     \<Rightarrow> py_error + (fs \<times> pyval list list \<times> bool)" where
  "rounds_loop threshold pd [] st = Inr st"
| "rounds_loop threshold pd (data_tuple # rest) st =
     (case round_step threshold pd data_tuple st of
        Inl e \<Rightarrow> Inl e
      | Inr st' \<Rightarrow> rounds_loop threshold pd rest st')"

text \<open>
  \<^verbatim>\<open>process_data\<close>. \<open>data_generators\<close> are the record sequences that
  \<^verbatim>\<open>get_data_generators\<close> returns, one per file name, each as the list of records it
  yields. The result is the file system after the partial writes, the object with its
  \<^verbatim>\<open>file_processing_data\<close> filled, and the returned pair
  \<^verbatim>\<open>(partial_write, sorting)\<close>.
\<close>

definition process_data_at ::
  "nat \<Rightarrow> fs \<Rightarrow> ProcessData \<Rightarrow> pyval list list list
     \<Rightarrow> py_error + (fs \<times> ProcessData \<times> bool \<times> pyval list list)" where
  "process_data_at threshold s pd data_generators =
     (case make_file_processing_data pd of
        Inl e \<Rightarrow> Inl e
      | Inr pd' \<Rightarrow>
          (case rounds_loop threshold pd' (zip_longest data_generators) (s, [], False) of
             Inl e \<Rightarrow> Inl e
           | Inr (s', sorting, partial_write) \<Rightarrow>
               (case py_sort (take 3) sorting of
                  Inl e \<Rightarrow> Inl e
                | Inr final \<Rightarrow> Inr (s', pd', partial_write, final))))"

definition process_data ::
  "fs \<Rightarrow> ProcessData \<Rightarrow> pyval list list list
     \<Rightarrow> py_error + (fs \<times> ProcessData \<times> bool \<times> pyval list list)" where
  "process_data = process_data_at flush_threshold"

section \<open>\<^verbatim>\<open>main.process_data\<close>\<close>

text \<open>
  \<^verbatim>\<open>
  processing = ProcessData(path)
  file_writer = WriteData(path)
  process_headers(processing, file_writer, files)
  partial_write, sorted_data = processing.process_data()
  file_writer.write_data(sorted_data)
  \<close>
  A source is a file name, the headers its reader discovers and the records its reader
  yields: \<^verbatim>\<open>get_all_headers\<close> and \<^verbatim>\<open>get_data_generators\<close> are taken by their results.
\<close>

definition main_process_data_at ::
  "nat \<Rightarrow> (pystr set \<Rightarrow> pystr list) \<Rightarrow> fs \<Rightarrow> pystr
     \<Rightarrow> (pystr \<times> pystr list \<times> pyval list list) list \<Rightarrow> py_error + fs" where
  "main_process_data_at threshold set_order s p sources =
     (case WriteData_init p default_file_name default_extension of
        Inl e \<Rightarrow> Inl e
      | Inr (file_writer, printed) \<Rightarrow>
          (case sort_headers set_order
                  ((ProcessData_init p)\<lparr>file_names := map fst sources,
                                         headers_by_file := map (\<lambda>src. fst (snd src)) sources\<rparr>) of
             Inl e \<Rightarrow> Inl e
           | Inr processing \<Rightarrow>
               (case write_headers s file_writer (headers processing) of
                  Inl e \<Rightarrow> Inl e
                | Inr s1 \<Rightarrow>
                    (case process_data_at threshold s1 processing (map (\<lambda>src. snd (snd src)) sources) of
                       Inl e \<Rightarrow> Inl e
                     | Inr (s2, processing', partial_write, sorted_data) \<Rightarrow>
                         write_data s2 file_writer sorted_data))))"

definition main_process_data ::
  "(pystr set \<Rightarrow> pystr list) \<Rightarrow> fs \<Rightarrow> pystr
     \<Rightarrow> (pystr \<times> pystr list \<times> pyval list list) list \<Rightarrow> py_error + fs" where
  "main_process_data = main_process_data_at flush_threshold"

section \<open>\<^verbatim>\<open>JSONFileReader.read_record\<close>\<close>

text \<open>
  \<^verbatim>\<open>
  raw_data = []
  with open(f'{self.path}{self.file_name}', 'rb', encoding="utf-8") as file:
      items_kv = kvitems(file, 'fields.item', buf_size=512)
      for _, value in items_kv:
          raw_data.append(value)
          if len(raw_data) == data_by_record:
              yield raw_data
              raw_data = []
  \<close>
  \<^verbatim>\<open>open\<close> refuses an \<^verbatim>\<open>encoding\<close> argument in a binary mode: it raises
  \<^verbatim>\<open>ValueError("binary mode doesn't take an encoding argument")\<close> before it touches
  the file. \<open>json_records\<close> is the loop over the key-value items that \<^verbatim>\<open>kvitems\<close>
  yields, of which only the values are used; \<open>JSON_read_record\<close> is what the first
  \<^verbatim>\<open>next\<close> on the generator meets: the exception of \<^verbatim>\<open>open\<close>, or the records.
\<close>

definition open_check :: "string \<Rightarrow> string option \<Rightarrow> py_error + unit" where
  "open_check mode encoding =
     (if CHR ''b'' \<in> set mode \<and> encoding \<noteq> None
      then Inl (ValueError (str ''binary mode doesn't take an encoding argument''))
      else Inr ())"

fun json_records :: "int \<Rightarrow> 'v list \<Rightarrow> 'v list \<Rightarrow> 'v list list" where
  "json_records data_by_record raw_data [] = []"
| "json_records data_by_record raw_data (v # rest) =
     (if int (length (raw_data @ [v])) = data_by_record
      then (raw_data @ [v]) # json_records data_by_record [] rest
      else json_records data_by_record (raw_data @ [v]) rest)"

definition JSON_read_record :: "('k \<times> 'v) list \<Rightarrow> int \<Rightarrow> py_error + 'v list list" where
  "JSON_read_record items_kv data_by_record =
     (case open_check ''rb'' (Some ''utf-8'') of
        Inl e \<Rightarrow> Inl e
      | Inr u \<Rightarrow> Inr (json_records data_by_record [] (map snd items_kv)))"

text \<open>\<^verbatim>\<open>data_by_record = len(headers) if '.json' in file else 0\<close>
  (\<^verbatim>\<open>get_data_generators\<close>).\<close>

fun contains :: "pystr \<Rightarrow> pystr \<Rightarrow> bool" where
  "contains sub [] = (sub = [])"
| "contains sub (c # cs) = (prefix sub (c # cs) \<or> contains sub cs)"

definition data_by_record_of :: "pystr \<Rightarrow> pystr list \<Rightarrow> int" where
  "data_by_record_of file_name hdrs = (if contains (str ''.json'') file_name then int (length hdrs) else 0)"

section \<open>Auxiliary notions for the statements\<close>

text \<open>A name all of whose code points are ASCII.\<close>

definition ascii_name :: "pystr \<Rightarrow> bool" where
  "ascii_name s = list_all (\<lambda>c. c < 128) s"

text \<open>A key whose tokens alternate between str and int; the flag says whether a str
  is expected first.\<close>

fun typed_key :: "bool \<Rightarrow> pyval list \<Rightarrow> bool" where
  "typed_key expect_str [] = True"
| "typed_key True (PStr s # rest) = typed_key False rest"
| "typed_key False (PInt i # rest) = typed_key True rest"
| "typed_key expect_str (v # rest) = False"

text \<open>The key of a name as a total function (the empty key where the key raises), to
  state that a list is sorted by key.\<close>

definition key_of :: "pystr \<Rightarrow> pyval list" where
  "key_of s = (case alphanum_key s of Inl e \<Rightarrow> [] | Inr k \<Rightarrow> k)"

text \<open>An iteration order for sets of strings, used where an example needs one.\<close>

definition sorted_order :: "pystr set \<Rightarrow> pystr list" where
  "sorted_order S = sorted_list_of_set S"

text \<open>
  The record the engine's code appends to its buffer for one raw record, as a function of
  the raw columns of the source and the unified schema. \<open>realign\<close> is what
  \<^verbatim>\<open>order_record\<close> returns when the raw columns are not in sorted order (the cells in the
  order of the sorted columns), and the record itself otherwise. \<open>presence_bitmap\<close> is
  the \<^verbatim>\<open>header_comparison\<close> of the source. \<open>buffered_record\<close> completes the realigned
  record with \<open>complete_cells\<close>, the code's own positional loop: it is what the code
  builds, not the padding the specification describes, and where a false bit of the
  bitmap comes before a true one it has lost cells.
\<close>

definition realign :: "pystr list \<Rightarrow> pyval list \<Rightarrow> pyval list" where
  "realign raw_columns row =
     (if raw_columns \<noteq> sort_key key_of raw_columns
      then map snd (sort_key (\<lambda>c. key_of (fst c)) (zip raw_columns row))
      else row)"

definition presence_bitmap :: "pystr list \<Rightarrow> pystr list \<Rightarrow> bool list" where
  "presence_bitmap unified raw_columns = map (\<lambda>header. header \<in> set raw_columns) unified"

definition buffered_record :: "pystr list \<Rightarrow> pystr list \<Rightarrow> pyval list \<Rightarrow> pyval list" where
  "buffered_record unified raw_columns row =
     complete_cells (realign raw_columns row) (presence_bitmap unified raw_columns)"

text \<open>The records of one round, in source order: position \<open>j\<close> of the tuple belongs to
  source \<open>index + j\<close>, and an exhausted source (\<open>None\<close>) contributes nothing.\<close>

fun tuple_map :: "(nat \<Rightarrow> 'a \<Rightarrow> 'b) \<Rightarrow> nat \<Rightarrow> 'a option list \<Rightarrow> 'b list" where
  "tuple_map F index [] = []"
| "tuple_map F index (None # rest) = tuple_map F (Suc index) rest"
| "tuple_map F index (Some d # rest) = F index d # tuple_map F (Suc index) rest"

text \<open>The records the code appends to its buffer, one \<open>buffered_record\<close> for every input
  record of every source, source by source. This is the code's own output for each
  record, not a specification of it.\<close>

definition buffered_records :: "ProcessData \<Rightarrow> pyval list list list \<Rightarrow> pyval list list" where
  "buffered_records pd data_generators =
     concat (map (\<lambda>(j, g). map (buffered_record (headers pd) (headers_by_file pd ! j)) g)
               (enumerate 0 data_generators))"

text \<open>The batches handed to the sink by the partial writes of a run, in order: each is
  appended to the file of \<^verbatim>\<open>WriteData()\<close>.\<close>

fun write_batches :: "fs \<Rightarrow> pyval list list list \<Rightarrow> py_error + fs" where
  "write_batches s [] = Inr s"
| "write_batches s (batch # rest) =
     (case append_file s (output_file default_base_directory) (appendBatch_spec batch) of
        Inl e \<Rightarrow> Inl e
      | Inr s' \<Rightarrow> write_batches s' rest)"

text \<open>
  The rounds of a run gathered into groups, as the flush test at the head of every round
  cuts them; a device for the proofs. \<open>cur\<close> is the group being filled: before a round, a
  group that holds more than \<open>threshold\<close> records is closed and the round opens a new
  one, otherwise the round joins the group.
\<close>

fun group_rounds :: "nat \<Rightarrow> 'a list list \<Rightarrow> 'a list list \<Rightarrow> 'a list list list" where
  "group_rounds threshold cur [] = [cur]"
| "group_rounds threshold cur (r # rs) =
     (if threshold < length (concat cur) then cur # group_rounds threshold [r] rs
      else group_rounds threshold (cur @ [r]) rs)"

text \<open>An example: two sources over the unified schema D1, D2. \<^verbatim>\<open>a.csv\<close> has the
  columns D1, D2 and three records, \<^verbatim>\<open>b.csv\<close> the columns D2, D1 (to be realigned) and
  one record.\<close>

definition example_fs :: fs where
  "example_fs = \<lparr>dirs = {str ''../data/result/''}, files = Map.empty\<rparr>"

definition example_pd :: ProcessData where
  "example_pd =
     \<lparr>headers = [str ''D1'', str ''D2''], file_processing_data = Map.empty, path = str ''in/'',
      file_names = [str ''a.csv'', str ''b.csv''],
      headers_by_file = [[str ''D1'', str ''D2''], [str ''D2'', str ''D1'']]\<rparr>"

definition example_records :: "pyval list list list" where
  "example_records =
     [[[PStr (str ''1''), PStr (str ''a'')], [PStr (str ''2''), PStr (str ''b'')],
       [PStr (str ''3''), PStr (str ''c'')]],
      [[PStr (str ''z''), PStr (str ''0'')]]]"

text \<open>The input of the specification's testable property 5: source A with the columns
  D1, D2, M1 and the row (1, 2, x), source B with the columns D1, M1, M2 and the row
  (1, y, z).\<close>

definition property5_sources :: "(pystr \<times> pystr list \<times> pyval list list) list" where
  "property5_sources =
     [(str ''a.csv'', [str ''D1'', str ''D2'', str ''M1''],
         [[PStr (str ''1''), PStr (str ''2''), PStr (str ''x'')]]),
      (str ''b.csv'', [str ''D1'', str ''M1'', str ''M2''],
         [[PStr (str ''1''), PStr (str ''y''), PStr (str ''z'')]])]"

section \<open>Facts about comparison and sorting\<close>

lemmas key_eval =
  sort_alphanumeric_def alphanum_key_def re_split_digits.simps str_def ascii_digit_def
  convert_def isdigit_def digit_char_def decimal_value_def py_int_def upper_def
  upper_char_def py_sort_def comparable_def less_pyval_def less_eq_pyval_def

lemma py_lt_agrees: "py_lt x y = Inr r \<Longrightarrow> r = (x < y)"
  by (cases x; cases y) (auto simp: less_pyval_def)

lemma py_list_lt_agrees: "py_list_lt a b = Inr r \<Longrightarrow> r = (a < b)"
proof (induction a b rule: py_list_lt.induct)
  case (4 x xs y ys)
  show ?case
  proof (cases "x = y")
    case True
    with 4 show ?thesis by simp
  next
    case False
    with 4 have "py_lt x y = Inr r" by simp
    then have "r = (x < y)" by (rule py_lt_agrees)
    with False show ?thesis by simp
  qed
qed simp_all

lemma comparable_refl: "comparable a a"
  by (induction a) (auto simp: comparable_def)

lemma comparable_take: "comparable a b \<Longrightarrow> comparable (take n a) (take n b)"
proof (induction a b arbitrary: n rule: py_list_lt.induct)
  case (4 x xs y ys)
  show ?case
  proof (cases n)
    case 0
    then show ?thesis by (simp add: comparable_def)
  next
    case (Suc m)
    with 4 show ?thesis
      by (cases "x = y") (auto simp: comparable_def)
  qed
next
  case (2 y ys)
  then show ?case by (cases n) (auto simp: comparable_def)
next
  case (3 x xs)
  then show ?case by (cases n) (auto simp: comparable_def)
qed (auto simp: comparable_def)

lemma typed_key_comparable: "typed_key b k1 \<Longrightarrow> typed_key b k2 \<Longrightarrow> comparable k1 k2"
proof (induction k1 k2 arbitrary: b rule: py_list_lt.induct)
  case (4 x xs y ys)
  show ?case
  proof (cases b)
    case True
    with 4(2,3) obtain s t where xy: "x = PStr s" "y = PStr t"
      by (cases x; cases y) auto
    with True 4(2,3) have "typed_key False xs" "typed_key False ys" by auto
    with 4(1) have "x = y \<Longrightarrow> comparable xs ys" by blast
    with xy show ?thesis by (auto simp: comparable_def)
  next
    case False
    with 4(2,3) obtain i j where xy: "x = PInt i" "y = PInt j"
      by (cases x; cases y) auto
    with False 4(2,3) have "typed_key True xs" "typed_key True ys" by auto
    with 4(1) have "x = y \<Longrightarrow> comparable xs ys" by blast
    with xy show ?thesis by (auto simp: comparable_def)
  qed
qed (auto simp: comparable_def)

lemma py_sort_Inr:
  "(\<And>a b. a \<in> set xs \<Longrightarrow> b \<in> set xs \<Longrightarrow> comparable (key a) (key b))
     \<Longrightarrow> py_sort key xs = Inr (sort_key key xs)"
  by (simp add: py_sort_def list_all_iff)

lemma py_sort_Inr_iff:
  "py_sort key xs = Inr ys \<longleftrightarrow>
     (\<forall>a\<in>set xs. \<forall>b\<in>set xs. comparable (key a) (key b)) \<and> ys = sort_key key xs"
  by (auto simp: py_sort_def list_all_iff)

lemma insort_key_map:
  "insort_key k (g x) (map g xs) = map g (insort_key (\<lambda>y. k (g y)) x xs)"
  by (induction xs) auto

lemma sort_key_map: "sort_key k (map g xs) = map g (sort_key (\<lambda>y. k (g y)) xs)"
  by (induction xs) (auto simp: insort_key_map)

lemma sort_key_zip_keys:
  "map snd (sort_key fst (zip (map f xs) xs)) = sort_key f xs"
proof -
  have "zip (map f xs) xs = map (\<lambda>x. (f x, x)) xs"
    by (induction xs) auto
  then show ?thesis
    by (simp add: sort_key_map comp_def)
qed

lemma map_err_Inr:
  "(\<And>x. x \<in> set xs \<Longrightarrow> f x = Inr (g x)) \<Longrightarrow> map_err f xs = Inr (map g xs)"
  by (induction xs) auto

section \<open>The record realigner: \<^verbatim>\<open>complete_record\<close>\<close>

lemma length_zip_longest2: "length (zip_longest2 xs ys) = max (length xs) (length ys)"
  by (induction xs ys rule: zip_longest2.induct) auto

lemma length_complete_cells:
  "length (complete_cells row hc) = max (length row) (length hc)"
  by (simp add: complete_cells_def length_zip_longest2)

text \<open>Where every true bit comes before every false bit, the loop does pad the record
  as intended: the cells, then the absence markers.\<close>

lemma complete_cells_prefix:
  "complete_cells row (replicate (length row) True @ replicate k False) = row @ replicate k PNone"
proof (induction row)
  case Nil
  show ?case
    by (induction k) (auto simp: complete_cells_def complete_cell_def)
next
  case (Cons c row)
  then show ?case by (simp add: complete_cells_def complete_cell_def)
qed

text \<open>
  Claim C1. \<open>complete\<close> should put the next unconsumed cell of the ordered record at each
  true position of the bitmap, so that filtering the padded record by the bitmap gives
  the record back. The loop pairs the record with the bitmap position by position
  instead: on the example of the docstring of \<^verbatim>\<open>sort_headers\<close> (a file with the headers
  M1 and M4 among the gathered headers M1, M2, M3, M4) the record \<open>[a, b]\<close> has as many
  cells as the bitmap has true bits, and is completed to \<open>[a, None, None, None]\<close>: the
  cell \<open>b\<close> is lost, and filtering by the bitmap gives \<open>[a, None]\<close>.
\<close>

theorem complete_record_loses_cell:
  "\<exists>pd. make_file_processing_data
          ((ProcessData_init (str ''../data/''))
             \<lparr>headers := [str ''M1'', str ''M2'', str ''M3'', str ''M4''],
              file_names := [str ''a.csv''],
              headers_by_file := [[str ''M1'', str ''M4'']]\<rparr>) = Inr pd
     \<and> file_info_at pd 0 =
         Inr \<lparr>header_comparison = [True, False, False, True], rearrangement_needed = False\<rparr>
     \<and> length (filter id [True, False, False, True]) = length [PStr (str ''a''), PStr (str ''b'')]
     \<and> complete_record pd [PStr (str ''a''), PStr (str ''b'')] 0
         = Inr [PStr (str ''a''), PNone, PNone, PNone]
     \<and> filter_present [PStr (str ''a''), PNone, PNone, PNone] [True, False, False, True]
         = [PStr (str ''a''), PNone]"
  by (simp add: make_file_processing_data_def ProcessData_init_def file_info_at_def nth_err_def
      complete_record_def complete_cells_def complete_cell_def filter_present_def key_eval)

theorem complete_record_loses_cell_witness:
  "filter_present (complete_cells [PStr (str ''a''), PStr (str ''b'')] [True, False, False, True])
     [True, False, False, True] \<noteq> [PStr (str ''a''), PStr (str ''b'')]"
proof -
  from complete_record_loses_cell obtain pd where
    "file_info_at pd 0 =
       Inr \<lparr>header_comparison = [True, False, False, True], rearrangement_needed = False\<rparr>"
    and "complete_record pd [PStr (str ''a''), PStr (str ''b'')] 0
       = Inr [PStr (str ''a''), PNone, PNone, PNone]"
    by blast
  then have "complete_cells [PStr (str ''a''), PStr (str ''b'')] [True, False, False, True]
      = [PStr (str ''a''), PNone, PNone, PNone]"
    by (simp add: complete_record_def)
  then show ?thesis
    by (simp add: filter_present_def)
qed

section \<open>The Output Sink\<close>

text \<open>
  Claim C3. An extension with no registered generator should make the constructor of
  the sink fail with the "unsupported format" signal (\<^verbatim>\<open>ValueError\<close>, as on the reader
  side), caught and reported. \<^verbatim>\<open>get_file_generator\<close> subscripts the dict, so every
  extension other than \<^verbatim>\<open>tsv\<close> raises \<^verbatim>\<open>KeyError\<close>, which the
  \<^verbatim>\<open>except ValueError\<close> of \<^verbatim>\<open>WriteData.__init__\<close> does not catch: the exception leaves
  the constructor and nothing is printed. The reader side gives \<^verbatim>\<open>ValueError\<close> for the
  same extension.
\<close>

theorem unregistered_extension_raises_KeyError:
  "extension \<noteq> str ''tsv'' \<Longrightarrow>
     get_file_generator FileGeneratorFactory_init d n extension = Inl (KeyError extension)
     \<and> WriteData_init base_directory n extension = Inl (KeyError extension)
     \<and> (extension \<notin> {str ''csv'', str ''json'', str ''xml''} \<longrightarrow>
          get_file_reader_class FileReaderFactory_init extension
            = Inl (ValueError (not_supported extension)))"
  by (auto simp: WriteData_init_def get_file_generator_def FileGeneratorFactory_init_def
      get_file_reader_class_def FileReaderFactory_init_def)

theorem unregistered_extension_raises_KeyError_witness:
  "str ''yaml'' \<noteq> str ''tsv''
     \<and> WriteData_init (str ''../data/'') (str ''result'') (str ''yaml'') = Inl (KeyError (str ''yaml''))
     \<and> get_file_reader_class FileReaderFactory_init (str ''yaml'')
          = Inl (ValueError (not_supported (str ''yaml'')))"
proof -
  have ne: "str ''yaml'' \<noteq> str ''tsv''" by (simp add: str_def)
  have "str ''yaml'' \<notin> {str ''csv'', str ''json'', str ''xml''}" by (simp add: str_def)
  with unregistered_extension_raises_KeyError [OF ne] ne show ?thesis by blast
qed

text \<open>The \<^verbatim>\<open>ValueError\<close> branch of the constructor is reached only for an extension
  registered with the value \<^verbatim>\<open>None\<close>; the default registry holds none.\<close>

lemma get_file_generator_ValueError:
  "get_file_generator (register formats extension None) d n extension
     = Inl (ValueError (not_supported extension))"
  by (simp add: get_file_generator_def register_def)

lemma WriteData_init_default:
  "WriteData_init base_directory default_file_name default_extension
     = Inr (\<lparr>directory = base_directory @ str ''result/'',
             file_generator = Some (TSVFileGenerator (output_file base_directory))\<rparr>, [])"
  by (simp add: WriteData_init_def get_file_generator_def FileGeneratorFactory_init_def
      default_extension_def new_generator_def output_file_def default_file_name_def)

lemma set_data_rows_join:
  "c + int (length rest) = n + 1 \<Longrightarrow> set_data_rows n c rest = join [10] (map row_spec rest)"
proof (induction rest arbitrary: c)
  case Nil
  then show ?case by simp
next
  case (Cons line rest)
  show ?case
  proof (cases rest)
    case Nil
    with Cons.prems show ?thesis by (simp add: row_spec_def)
  next
    case (Cons line' rest')
    with Cons.prems have "c < n" and "(c + 1) + int (length rest) = n + 1" by auto
    with Cons.IH [of "c + 1"] Cons show ?thesis by (simp add: row_spec_def)
  qed
qed

text \<open>
  Claim C9. \<open>appendBatch\<close> writes every cell followed by one tab (also the last cell of a
  row; the absence marker as the empty string), a newline between consecutive rows of the
  batch and none after its last row: the text \<^verbatim>\<open>set_data\<close> writes is
  \<open>appendBatch_spec\<close>, it is appended to what the file holds, and the text of a batch
  ends in the tab of its last cell.
\<close>

theorem set_data_writes_appendBatch_spec:
  "set_data_rows (int (length data) - 1) 0 data = appendBatch_spec data
   \<and> set_data s g data = append_file s (file_of g) (appendBatch_spec data)
   \<and> cell_text PNone = []
   \<and> appendBatch_spec [] = []
   \<and> appendBatch_spec [row] = concat (map (\<lambda>v. cell_text v @ [9]) row)
   \<and> appendBatch_spec (row # row' # rows)
        = concat (map (\<lambda>v. cell_text v @ [9]) row) @ [10] @ appendBatch_spec (row' # rows)"
proof -
  have "set_data_rows (int (length data) - 1) 0 data = appendBatch_spec data"
    unfolding appendBatch_spec_def by (rule set_data_rows_join) simp
  then show ?thesis
    by (simp add: set_data_def appendBatch_spec_def row_spec_def)
qed

theorem set_data_writes_appendBatch_spec_witness:
  "set_data \<lparr>dirs = {str ''out/''}, files = [str ''out/r.tsv'' \<mapsto> str ''D1''  @ [9] @ str ''D2'' @ [10]]\<rparr>
     (TSVFileGenerator (str ''out/r.tsv''))
     [[PStr (str ''a''), PNone], [PStr (str ''b''), PStr (str ''c'')]]
   = Inr \<lparr>dirs = {str ''out/''},
          files = [str ''out/r.tsv'' \<mapsto>
            str ''D1'' @ [9] @ str ''D2'' @ [10] @ str ''a'' @ [9, 9, 10] @ str ''b'' @ [9] @ str ''c'' @ [9]]\<rparr>"
  using set_data_writes_appendBatch_spec
    [of "[[PStr (str ''a''), PNone], [PStr (str ''b''), PStr (str ''c'')]]"
        "\<lparr>dirs = {str ''out/''}, files = [str ''out/r.tsv'' \<mapsto> str ''D1''  @ [9] @ str ''D2'' @ [10]]\<rparr>"
        "TSVFileGenerator (str ''out/r.tsv'')"]
  by (simp add: appendBatch_spec_def row_spec_def append_file_def dirname_def str_def)

section \<open>The JSON reader\<close>

text \<open>The loop of \<^verbatim>\<open>read_record\<close> never yields when the expected cell count is zero
  (or negative): the buffer holds at least one value when its length is tested.\<close>

lemma json_records_zero: "n \<le> 0 \<Longrightarrow> json_records n raw_data vs = []"
  by (induction vs arbitrary: raw_data) auto

text \<open>
  Claim C10. A JSON source read with hint 0 should give the empty sequence, silently.
  The loop would (\<open>json_records_zero\<close>), but it is never reached: \<^verbatim>\<open>read_record\<close> opens
  the file with \<^verbatim>\<open>open(..., 'rb', encoding="utf-8")\<close>, which raises \<^verbatim>\<open>ValueError\<close>, so
  the first \<^verbatim>\<open>next\<close> on the generator raises whatever the file holds and whatever the
  hint is.
\<close>

theorem JSON_read_record_raises:
  "JSON_read_record items_kv data_by_record
     = Inl (ValueError (str ''binary mode doesn't take an encoding argument''))
   \<and> data_by_record_of (str ''a.json'') [] = 0
   \<and> json_records 0 [] (map snd items_kv) = []"
  by (simp add: JSON_read_record_def open_check_def data_by_record_of_def json_records_zero
      str_def)

theorem JSON_read_record_raises_witness:
  "JSON_read_record [(str ''D1'', PStr (str ''x''))] 0 \<noteq> Inr []"
  using JSON_read_record_raises [of "[(str ''D1'', PStr (str ''x''))]" 0]
  by simp

section \<open>Column key ordering\<close>

lemma convert_literal:
  assumes "list_all (\<lambda>c. \<not> ascii_digit c \<and> c < 128) s"
  shows "convert s = Inr (PStr (upper s))"
proof -
  have "\<not> isdigit s"
  proof (cases s)
    case Nil
    then show ?thesis by (simp add: isdigit_def)
  next
    case (Cons c cs)
    with assms have "\<not> ascii_digit c" "c < 128" by auto
    then have "\<not> digit_char c"
      by (auto simp: digit_char_def decimal_value_def ascii_digit_def)
    with Cons show ?thesis by (simp add: isdigit_def)
  qed
  then show ?thesis by (simp add: convert_def)
qed

lemma convert_digits:
  assumes "s \<noteq> []" and "list_all ascii_digit s"
  shows "\<exists>n. convert s = Inr (PInt n)"
proof -
  from assms(2) have dec: "list_all (\<lambda>c. decimal_value c \<noteq> None) s"
    by (induction s) (auto simp: ascii_digit_def decimal_value_def)
  then have "list_all digit_char s"
    by (induction s) (auto simp: digit_char_def)
  with assms(1) have "isdigit s" by (simp add: isdigit_def)
  with assms(1) dec show ?thesis by (simp add: convert_def py_int_def)
qed

lemma list_all_takeWhile: "list_all P xs \<Longrightarrow> list_all P (takeWhile Q xs)"
  by (induction xs) auto

lemma list_all_dropWhile: "list_all P xs \<Longrightarrow> list_all P (dropWhile Q xs)"
  by (induction xs) auto

lemma list_all_takeWhile_same: "list_all P (takeWhile P xs)"
  by (induction xs) auto

lemma alphanum_key_ascii:
  "ascii_name s \<Longrightarrow> \<exists>k. alphanum_key s = Inr k \<and> typed_key True k"
  unfolding alphanum_key_def
proof (induction s rule: re_split_digits.induct)
  case (1 s)
  let ?lit = "takeWhile (\<lambda>c. \<not> ascii_digit c) s"
  let ?rest = "dropWhile (\<lambda>c. \<not> ascii_digit c) s"
  let ?num = "takeWhile ascii_digit ?rest"
  let ?rest' = "dropWhile ascii_digit ?rest"
  from "1.prems" have ascii: "list_all (\<lambda>c. c < 128) s" by (simp add: ascii_name_def)
  have "list_all (\<lambda>c. \<not> ascii_digit c) ?lit" by (rule list_all_takeWhile_same)
  moreover from ascii have "list_all (\<lambda>c. c < 128) ?lit" by (rule list_all_takeWhile)
  ultimately have "list_all (\<lambda>c. \<not> ascii_digit c \<and> c < 128) ?lit"
    by (simp add: list_all_iff)
  then have lit: "convert ?lit = Inr (PStr (upper ?lit))" by (rule convert_literal)
  show ?case
  proof (cases "?rest = []")
    case True
    with lit show ?thesis
      by (subst re_split_digits.simps) simp
  next
    case False
    then have "ascii_digit (hd ?rest)"
      using hd_dropWhile [of "\<lambda>c. \<not> ascii_digit c" s] by simp
    with False have "?num \<noteq> []" by (cases ?rest) auto
    moreover have "list_all ascii_digit ?num" by (rule list_all_takeWhile_same)
    ultimately obtain n where num: "convert ?num = Inr (PInt n)"
      using convert_digits by blast
    from ascii have "ascii_name ?rest'"
      unfolding ascii_name_def by (intro list_all_dropWhile)
    with "1.IH" [OF False] obtain k where
      k: "map_err convert (re_split_digits ?rest') = Inr k" and tk: "typed_key True k"
      by blast
    from False lit num k tk show ?thesis
      by (subst re_split_digits.simps) simp
  qed
qed

lemma alphanum_key_ascii_key_of:
  "ascii_name s \<Longrightarrow> alphanum_key s = Inr (key_of s) \<and> typed_key True (key_of s)"
  using alphanum_key_ascii [of s] by (auto simp: key_of_def)

lemma ascii_keys_comparable:
  "ascii_name a \<Longrightarrow> ascii_name b \<Longrightarrow> comparable (key_of a) (key_of b)"
  using alphanum_key_ascii_key_of typed_key_comparable by blast

lemma sort_alphanumeric_ascii:
  assumes "list_all ascii_name names"
  shows "sort_alphanumeric names descending
    = Inr (if descending then rev (sort_key key_of (rev names)) else sort_key key_of names)"
proof -
  from assms have ascii: "\<And>x. x \<in> set names \<Longrightarrow> ascii_name x"
    by (simp add: list_all_iff)
  then have keys: "map_err alphanum_key names = Inr (map key_of names)"
    by (intro map_err_Inr) (simp add: alphanum_key_ascii_key_of)
  let ?pairs = "zip (map key_of names) names"
  have mem: "\<And>p. p \<in> set ?pairs \<Longrightarrow> ascii_name (snd p) \<and> fst p = key_of (snd p)"
    using ascii by (auto simp: zip_map1 set_zip)
  have comp: "comparable (fst p) (fst q)"
    if "p \<in> set ?pairs" "q \<in> set ?pairs" for p q
    using mem [OF that(1)] mem [OF that(2)] ascii_keys_comparable by metis
  show ?thesis
  proof (cases descending)
    case False
    have "py_sort fst ?pairs = Inr (sort_key fst ?pairs)"
      by (rule py_sort_Inr) (rule comp)
    with keys False show ?thesis
      by (simp add: sort_alphanumeric_def sort_key_zip_keys)
  next
    case True
    have "py_sort fst (rev ?pairs) = Inr (sort_key fst (rev ?pairs))"
      by (rule py_sort_Inr) (auto intro: comp)
    moreover have "rev ?pairs = zip (map key_of (rev names)) (rev names)"
      by (simp add: zip_rev [symmetric] rev_map)
    moreover have "map snd (rev (sort_key fst (zip (map key_of (rev names)) (rev names))))
        = rev (sort_key key_of (rev names))"
      by (metis rev_map sort_key_zip_keys)
    ultimately show ?thesis
      using keys True by (simp add: sort_alphanumeric_def)
  qed
qed

text \<open>
  Claim C4, as amended. The code has no fallback to a comparison of stringified tokens:
  Python's comparison of an int token with a str token raises \<^verbatim>\<open>TypeError\<close>. For names
  of ASCII characters no mismatch can occur: the tokens of a key alternate, a str
  (possibly empty) at every even position and an int at every odd one, so any two keys
  are comparable and \<^verbatim>\<open>sort_alphanumeric\<close> returns, in both directions, a permutation
  of its input sorted by key.
\<close>

theorem sort_alphanumeric_total_on_ascii:
  assumes "list_all ascii_name names"
  shows "(\<exists>sorted_names. sort_alphanumeric names descending = Inr sorted_names
           \<and> mset sorted_names = mset names
           \<and> sorted (map key_of (if descending then rev sorted_names else sorted_names)))
       \<and> (\<forall>a\<in>set names. \<forall>b\<in>set names.
           \<exists>ka kb. alphanum_key a = Inr ka \<and> alphanum_key b = Inr kb
             \<and> typed_key True ka \<and> typed_key True kb \<and> comparable ka kb)"
proof
  show "\<exists>sorted_names. sort_alphanumeric names descending = Inr sorted_names
           \<and> mset sorted_names = mset names
           \<and> sorted (map key_of (if descending then rev sorted_names else sorted_names))"
    using sort_alphanumeric_ascii [OF assms, of descending] by auto
  show "\<forall>a\<in>set names. \<forall>b\<in>set names.
           \<exists>ka kb. alphanum_key a = Inr ka \<and> alphanum_key b = Inr kb
             \<and> typed_key True ka \<and> typed_key True kb \<and> comparable ka kb"
    using assms alphanum_key_ascii_key_of typed_key_comparable
    by (metis list_all_iff)
qed

theorem sort_alphanumeric_total_on_ascii_witness:
  "list_all ascii_name [str ''D10'', str ''m1'', str ''D9'', str ''D2'']
   \<and> sort_alphanumeric [str ''D10'', str ''m1'', str ''D9'', str ''D2''] False
       = Inr [str ''D2'', str ''D9'', str ''D10'', str ''m1'']
   \<and> comparable (key_of (str ''D10'')) (key_of (str ''m1''))"
proof -
  have a: "list_all ascii_name [str ''D10'', str ''m1'', str ''D9'', str ''D2'']"
    by (simp add: ascii_name_def str_def)
  have s: "sort_alphanumeric [str ''D10'', str ''m1'', str ''D9'', str ''D2''] False
       = Inr [str ''D2'', str ''D9'', str ''D10'', str ''m1'']"
    by (simp add: key_eval)
  from sort_alphanumeric_total_on_ascii [OF a, of False]
  have "comparable (key_of (str ''D10'')) (key_of (str ''m1''))"
    by (auto simp: key_of_def)
  with a s show ?thesis by simp
qed

text \<open>The claim as stated fails: a name that is an Arabic-Indic digit (U+0663) has the
  int key \<open>[3]\<close>, the name \<open>a\<close> has the str key \<open>['A']\<close>; the tokens at position 0 are
  of different types and the sort raises \<^verbatim>\<open>TypeError\<close>. A superscript two (U+00B2)
  alone makes the key itself raise \<^verbatim>\<open>ValueError\<close>.\<close>

theorem sort_alphanumeric_type_mismatch_raises:
  "alphanum_key [1635] = Inr [PInt 3]
   \<and> alphanum_key (str ''a'') = Inr [PStr (str ''A'')]
   \<and> sort_alphanumeric [[1635], str ''a''] False = Inl TypeError
   \<and> sort_alphanumeric [[178]] False
       = Inl (ValueError (str ''invalid literal for int() with base 10''))"
  by (simp add: key_eval)

section \<open>Schema unification: \<^verbatim>\<open>sort_headers\<close>\<close>

lemma listing_sorted_order: "listing sorted_order"
  by (simp add: listing_def sorted_order_def)

lemma fold_add_unseen:
  "fold (\<lambda>header S. if header \<notin> S then insert header S else S) hs S = S \<union> set hs"
  by (induction hs arbitrary: S) auto

lemma gather_headers_Some:
  "gather_headers (Some S) hss = Some (S \<union> \<Union> (set ` set hss))"
  by (induction hss arbitrary: S) (auto simp: fold_add_unseen)

lemma gather_headers_None:
  "gather_headers None hss = (if hss = [] then None else Some (\<Union> (set ` set hss)))"
  by (cases hss) (auto simp: gather_headers_Some)

text \<open>
  Claim C8, as amended. With at least one source, and column names of ASCII characters
  (so that the sort returns), the unified schema holds every column name of every
  source exactly once, and it is \<^verbatim>\<open>sort_alphanumeric\<close> of the set union of the sources'
  columns, listed in the order Python iterates the set; the schema is sorted by key.
\<close>

theorem sort_headers_unifies:
  assumes "headers_by_file pd \<noteq> []"
    and "listing set_order"
    and "\<forall>hs\<in>set (headers_by_file pd). list_all ascii_name hs"
  shows "\<exists>hdrs. sort_headers set_order pd = Inr (pd\<lparr>headers := hdrs\<rparr>)
           \<and> set hdrs = \<Union> (set ` set (headers_by_file pd))
           \<and> distinct hdrs
           \<and> sort_alphanumeric (set_order (\<Union> (set ` set (headers_by_file pd)))) False = Inr hdrs
           \<and> sorted (map key_of hdrs)"
proof -
  let ?U = "\<Union> (set ` set (headers_by_file pd))"
  have fin: "finite ?U" by simp
  with assms(2) have enum: "set (set_order ?U) = ?U" "distinct (set_order ?U)"
    by (auto simp: listing_def)
  from assms(3) enum(1) have "list_all ascii_name (set_order ?U)"
    by (auto simp: list_all_iff)
  then have sorted: "sort_alphanumeric (set_order ?U) False = Inr (sort_key key_of (set_order ?U))"
    by (simp add: sort_alphanumeric_ascii)
  from assms(1) have "gather_headers None (headers_by_file pd) = Some ?U"
    by (simp add: gather_headers_None)
  with sorted have "sort_headers set_order pd = Inr (pd\<lparr>headers := sort_key key_of (set_order ?U)\<rparr>)"
    by (simp add: sort_headers_def)
  with sorted enum show ?thesis by simp
qed

theorem sort_headers_unifies_witness:
  "sort_headers sorted_order
     ((ProcessData_init (str ''../data/''))
        \<lparr>file_names := [str ''a.csv'', str ''b.csv''],
         headers_by_file := [[str ''D1'', str ''D2'', str ''M1''], [str ''D1'', str ''M1'', str ''M2'']]\<rparr>)
   = Inr ((ProcessData_init (str ''../data/''))
        \<lparr>file_names := [str ''a.csv'', str ''b.csv''],
         headers_by_file := [[str ''D1'', str ''D2'', str ''M1''], [str ''D1'', str ''M1'', str ''M2'']],
         headers := [str ''D1'', str ''D2'', str ''M1'', str ''M2'']\<rparr>)"
proof -
  let ?pd = "(ProcessData_init (str ''../data/''))
        \<lparr>file_names := [str ''a.csv'', str ''b.csv''],
         headers_by_file := [[str ''D1'', str ''D2'', str ''M1''], [str ''D1'', str ''M1'', str ''M2'']]\<rparr>"
  have 1: "headers_by_file ?pd \<noteq> []" by simp
  have 3: "\<forall>hs\<in>set (headers_by_file ?pd). list_all ascii_name hs"
    by (simp add: ascii_name_def str_def)
  from sort_headers_unifies [OF 1 listing_sorted_order 3]
  obtain hdrs where r: "sort_headers sorted_order ?pd = Inr (?pd\<lparr>headers := hdrs\<rparr>)"
    and s: "sort_alphanumeric (sorted_order (\<Union> (set ` set (headers_by_file ?pd)))) False = Inr hdrs"
    by blast
  have "\<Union> (set ` set (headers_by_file ?pd))
      = set [str ''D1'', str ''D2'', str ''M1'', str ''M2'']"
    by auto
  then have "sorted_order (\<Union> (set ` set (headers_by_file ?pd)))
      = [str ''D1'', str ''D2'', str ''M1'', str ''M2'']"
    by (simp only: sorted_order_def sorted_list_of_set_sort_remdups) (simp add: str_def)
  with s have "hdrs = [str ''D1'', str ''D2'', str ''M1'', str ''M2'']"
    by (simp add: key_eval)
  with r show ?thesis by simp
qed

text \<open>The claim as stated ("for any set of per-source column lists") fails with no
  source, where the set is read before it is bound, and for a name on which the key
  raises.\<close>

theorem sort_headers_no_source_raises:
  "sort_headers sorted_order (ProcessData_init (str ''../data/'')) = Inl UnboundLocalError
   \<and> sort_headers sorted_order ((ProcessData_init (str ''../data/''))\<lparr>headers_by_file := [[[178]]]\<rparr>)
       = Inl (ValueError (str ''invalid literal for int() with base 10''))"
  by (simp add: sort_headers_def ProcessData_init_def sorted_order_def key_eval)

section \<open>The engine: the rounds of a run\<close>

subsection \<open>\<^verbatim>\<open>zip_longest\<close>: the rounds\<close>

lemma zip_longest_all_empty: "list_all (\<lambda>xs. xs = []) xss \<Longrightarrow> zip_longest xss = []"
  by (subst zip_longest.simps) simp

lemma zip_longest_step:
  "\<not> list_all (\<lambda>xs. xs = []) xss \<Longrightarrow>
     zip_longest xss = map (\<lambda>xs. case xs of [] \<Rightarrow> None | x # _ \<Rightarrow> Some x) xss # zip_longest (map tl xss)"
  by (subst zip_longest.simps) simp

lemma fold_max: "fold max ns m = max m (fold max ns (0::nat))"
proof (induction ns arbitrary: m)
  case Nil
  show ?case by simp
next
  case (Cons n ns)
  have "fold max (n # ns) m = max (max n m) (fold max ns 0)"
    using Cons [of "max n m"] by simp
  moreover have "fold max (n # ns) 0 = max n (fold max ns 0)"
    using Cons [of n] by simp
  ultimately show ?case by (simp add: max.assoc max.left_commute)
qed

lemma length_zip_longest: "length (zip_longest xss) = fold max (map length xss) 0"
proof (induction xss rule: zip_longest.induct)
  case (1 xss)
  show ?case
  proof (cases "list_all (\<lambda>xs. xs = []) xss")
    case True
    then have "fold max (map length xss) 0 = 0"
      by (induction xss) auto
    with True show ?thesis by (simp add: zip_longest_all_empty)
  next
    case False
    have suc: "fold max (map length yss) 0 = Suc (fold max (map length (map tl yss)) 0)"
      if "\<not> list_all (\<lambda>xs. xs = []) yss" for yss :: "'a list list"
      using that
    proof (induction yss)
      case Nil
      then show ?case by simp
    next
      case (Cons ys yss)
      show ?case
      proof (cases "list_all (\<lambda>xs. xs = []) yss")
        case True
        then have z: "fold max (map length yss) 0 = 0" "fold max (map length (map tl yss)) 0 = 0"
          by (induction yss) auto
        from Cons.prems True have "ys \<noteq> []" by auto
        then obtain y ys' where "ys = y # ys'" by (cases ys) auto
        with z show ?thesis
          using fold_max [of "map length yss" "length ys"]
            fold_max [of "map length (map tl yss)" "length (tl ys)"] by simp
      next
        case False
        from Cons.IH [OF False] show ?thesis
          using fold_max [of "map length yss" "length ys"]
            fold_max [of "map length (map tl yss)" "length (tl ys)"]
          by (cases ys) auto
      qed
    qed
    from False "1.IH" [OF False] suc [OF False] show ?thesis
      by (simp add: zip_longest_step)
  qed
qed

lemma nth_zip_longest:
  "k < length (zip_longest xss) \<Longrightarrow>
     zip_longest xss ! k = map (\<lambda>xs. if k < length xs then Some (xs ! k) else None) xss"
proof (induction xss arbitrary: k rule: zip_longest.induct)
  case (1 xss)
  show ?case
  proof (cases "list_all (\<lambda>xs. xs = []) xss")
    case True
    with "1.prems" show ?thesis by (simp add: zip_longest_all_empty)
  next
    case False
    show ?thesis
    proof (cases k)
      case 0
      have "(case xs of [] \<Rightarrow> None | x # _ \<Rightarrow> Some x) = (if 0 < length xs then Some (xs ! 0) else None)"
        for xs :: "'a list" by (cases xs) auto
      with False 0 show ?thesis by (simp add: zip_longest_step)
    next
      case (Suc m)
      with False "1.prems" have "m < length (zip_longest (map tl xss))"
        by (simp add: zip_longest_step)
      from "1.IH" [OF False this]
      have "zip_longest (map tl xss) ! m
          = map (\<lambda>xs. if m < length xs then Some (xs ! m) else None) (map tl xss)" .
      moreover have "(if m < length (tl xs) then Some (tl xs ! m) else None)
          = (if Suc m < length xs then Some (xs ! Suc m) else None)" for xs :: "'a list"
        by (cases xs) auto
      ultimately show ?thesis
        using False Suc by (simp add: zip_longest_step comp_def)
    qed
  qed
qed

lemma tuple_map_heads:
  "mset (tuple_map F i (map (\<lambda>xs. case xs of [] \<Rightarrow> None | x # _ \<Rightarrow> Some x) xss))
     + mset (concat (map (\<lambda>(j, g). map (F j) g) (enumerate i (map tl xss))))
   = mset (concat (map (\<lambda>(j, g). map (F j) g) (enumerate i xss)))"
proof (induction xss arbitrary: i)
  case Nil
  then show ?case by simp
next
  case (Cons xs xss)
  from Cons.IH [of "Suc i"] show ?case
    by (cases xs) (auto simp: ac_simps)
qed

lemma mset_zip_longest:
  "mset (concat (map (tuple_map F i) (zip_longest xss)))
     = mset (concat (map (\<lambda>(j, g). map (F j) g) (enumerate i xss)))"
proof (induction xss rule: zip_longest.induct)
  case (1 xss)
  show ?case
  proof (cases "list_all (\<lambda>xs. xs = []) xss")
    case True
    then have "concat (map (\<lambda>(j, g). map (F j) g) (enumerate k xss)) = []" for k
      by (induction xss arbitrary: k) auto
    with True show ?thesis by (simp add: zip_longest_all_empty)
  next
    case False
    from "1.IH" [OF False] tuple_map_heads [of F i xss] False show ?thesis
      by (simp add: zip_longest_step)
  qed
qed

lemma zip_longest_tuples:
  "t \<in> set (zip_longest xss) \<Longrightarrow>
     length t = length xss \<and> (\<forall>j<length xss. \<forall>d. t ! j = Some d \<longrightarrow> d \<in> set (xss ! j))"
proof -
  assume "t \<in> set (zip_longest xss)"
  then obtain k where k: "k < length (zip_longest xss)" and t: "t = zip_longest xss ! k"
    by (auto simp: in_set_conv_nth)
  from nth_zip_longest [OF k] t
  have "t = map (\<lambda>xs. if k < length xs then Some (xs ! k) else None) xss" by simp
  then show ?thesis by (auto split: if_splits)
qed

subsection \<open>The partial write and one round\<close>

lemma partial_flush_eq:
  "partial_flush s sorting =
     (case py_sort (take 2) sorting of
        Inl e \<Rightarrow> Inl e
      | Inr batch \<Rightarrow> append_file s (output_file default_base_directory) (appendBatch_spec batch))"
proof -
  have "set_data s (TSVFileGenerator (output_file default_base_directory)) batch
      = append_file s (output_file default_base_directory) (appendBatch_spec batch)" for batch
    using set_data_rows_join [of 0 batch "int (length batch) - 1"]
    by (simp add: set_data_def appendBatch_spec_def)
  then show ?thesis
    by (simp add: partial_flush_def WriteData_init_default write_data_def split: sum.splits)
qed

lemma process_tuple_acc:
  "process_tuple pd i t acc =
     (case process_tuple pd i t [] of Inl e \<Rightarrow> Inl e | Inr rs \<Rightarrow> Inr (acc @ rs))"
proof (induction t arbitrary: i acc)
  case Nil
  show ?case by simp
next
  case (Cons x t)
  show ?case
  proof (cases x)
    case None
    with Cons [of "Suc i" acc] show ?thesis by simp
  next
    case (Some d)
    show ?thesis
    proof (cases "process_record pd i d")
      case (Inl e)
      with Some show ?thesis by simp
    next
      case (Inr d')
      with Some Cons [of "Suc i" "acc @ [d']"] Cons [of "Suc i" "[d']"] show ?thesis
        by (simp split: sum.splits)
    qed
  qed
qed

lemma process_tuple_map:
  "(\<And>j d. j < length t \<Longrightarrow> t ! j = Some d \<Longrightarrow> process_record pd (i + j) d = Inr (F (i + j) d))
     \<Longrightarrow> process_tuple pd i t acc = Inr (acc @ tuple_map F i t)"
proof (induction t arbitrary: i acc)
  case Nil
  show ?case by simp
next
  case (Cons x t)
  have rest: "process_record pd (Suc i + j) d = Inr (F (Suc i + j) d)"
    if "j < length t" "t ! j = Some d" for j d
    using Cons.prems [of "Suc j" d] that by simp
  show ?case
  proof (cases x)
    case None
    with Cons.IH [of "Suc i" acc, OF rest] show ?thesis by simp
  next
    case (Some d)
    with Cons.prems [of 0 d] have "process_record pd i d = Inr (F i d)" by simp
    with Some Cons.IH [of "Suc i" "acc @ [F i d]", OF rest] show ?thesis by simp
  qed
qed

lemma comparable_take2:
  "comparable (take 3 a) (take 3 b) \<Longrightarrow> comparable (take 2 a) (take 2 b)"
  using comparable_take [of "take 3 a" "take 3 b" 2] by simp

subsection \<open>The descriptors and one record\<close>

lemma file_processing_loop_lookup:
  assumes "length names = length hss"
    and "distinct names"
    and "\<forall>hs\<in>set hss. list_all ascii_name hs"
  shows "\<exists>fpd. file_processing_loop hdrs (zip names hss) fpd0 = Inr fpd
           \<and> (\<forall>i<length names. fpd (names ! i)
                 = Some \<lparr>header_comparison = presence_bitmap hdrs (hss ! i),
                         rearrangement_needed = (hss ! i \<noteq> sort_key key_of (hss ! i))\<rparr>)
           \<and> (\<forall>k. k \<notin> set names \<longrightarrow> fpd k = fpd0 k)"
  using assms
proof (induction names hss arbitrary: fpd0 rule: list_induct2)
  case Nil
  show ?case by simp
next
  case (Cons n ns h hs)
  let ?info = "\<lparr>header_comparison = presence_bitmap hdrs h,
                 rearrangement_needed = (h \<noteq> sort_key key_of h)\<rparr>"
  from Cons.prems have "list_all ascii_name h" by simp
  then have sorted: "sort_alphanumeric h False = Inr (sort_key key_of h)"
    by (simp add: sort_alphanumeric_ascii)
  from Cons.prems have "distinct ns" "\<forall>hs\<in>set hs. list_all ascii_name hs" "n \<notin> set ns"
    by auto
  from Cons.IH [OF this(1,2), of "fpd0(n \<mapsto> ?info)"]
  obtain fpd where loop: "file_processing_loop hdrs (zip ns hs) (fpd0(n \<mapsto> ?info)) = Inr fpd"
    and look: "\<forall>i<length ns. fpd (ns ! i)
                 = Some \<lparr>header_comparison = presence_bitmap hdrs (hs ! i),
                         rearrangement_needed = (hs ! i \<noteq> sort_key key_of (hs ! i))\<rparr>"
    and frame: "\<forall>k. k \<notin> set ns \<longrightarrow> fpd k = (fpd0(n \<mapsto> ?info)) k"
    by blast
  from loop sorted have "file_processing_loop hdrs (zip (n # ns) (h # hs)) fpd0 = Inr fpd"
    by (simp add: presence_bitmap_def)
  moreover from frame \<open>n \<notin> set ns\<close> have "fpd n = Some ?info" by simp
  with look have "\<forall>i<length (n # ns). fpd ((n # ns) ! i)
                 = Some \<lparr>header_comparison = presence_bitmap hdrs ((h # hs) ! i),
                         rearrangement_needed = ((h # hs) ! i \<noteq> sort_key key_of ((h # hs) ! i))\<rparr>"
    by (auto simp: nth_Cons split: nat.splits)
  moreover from frame have "\<forall>k. k \<notin> set (n # ns) \<longrightarrow> fpd k = fpd0 k" by simp
  ultimately show ?case by blast
qed

lemma order_record_ascii:
  assumes "list_all ascii_name hs" and "zip hs row \<noteq> []"
  shows "order_record row hs = Inr (map snd (sort_key (\<lambda>c. key_of (fst c)) (zip hs row)))"
proof -
  let ?cs = "zip hs row"
  let ?f = "\<lambda>c. key_of (fst c)"
  have ascii: "ascii_name (fst c)" if "c \<in> set ?cs" for c
  proof -
    from that have "(fst c, snd c) \<in> set (zip hs row)" by simp
    then have "fst c \<in> set hs" by (rule set_zip_leftD)
    with assms(1) show ?thesis by (simp add: list_all_iff)
  qed
  then have keys: "map_err (\<lambda>data. alphanum_key (fst data)) ?cs = Inr (map ?f ?cs)"
    by (intro map_err_Inr) (simp add: alphanum_key_ascii_key_of)
  have mem: "ascii_name (fst (snd p)) \<and> fst p = key_of (fst (snd p))"
    if "p \<in> set (zip (map ?f ?cs) ?cs)" for p
  proof -
    from that obtain i where i: "i < length ?cs" "p = (?f (?cs ! i), ?cs ! i)"
      by (auto simp: set_zip)
    from i(1) have "?cs ! i \<in> set ?cs" by (rule nth_mem)
    then have "ascii_name (fst (?cs ! i))" by (rule ascii)
    with i(2) show ?thesis by simp
  qed
  have "py_sort fst (zip (map ?f ?cs) ?cs) = Inr (sort_key fst (zip (map ?f ?cs) ?cs))"
  proof (rule py_sort_Inr)
    fix p q assume "p \<in> set (zip (map ?f ?cs) ?cs)" "q \<in> set (zip (map ?f ?cs) ?cs)"
    with mem [of p] mem [of q] show "comparable (fst p) (fst q)"
      using ascii_keys_comparable by metis
  qed
  moreover from assms(2) have "sort_key fst (zip (map ?f ?cs) ?cs) \<noteq> []"
    by (metis length_0_conv length_map length_sort length_zip min.idem)
  moreover have "map (\<lambda>p. snd (snd p)) (sort_key fst (zip (map ?f ?cs) ?cs))
      = map snd (sort_key ?f ?cs)"
  proof -
    have "map (\<lambda>p. snd (snd p)) (sort_key fst (zip (map ?f ?cs) ?cs))
        = map snd (map snd (sort_key fst (zip (map ?f ?cs) ?cs)))"
      by (simp add: comp_def)
    then show ?thesis by (simp only: sort_key_zip_keys)
  qed
  ultimately show ?thesis
    using keys by (simp add: order_record_def)
qed

lemma process_record_buffered:
  assumes "j < length (file_names pd')"
    and "j < length (headers_by_file pd')"
    and "file_processing_data pd' (file_names pd' ! j)
           = Some \<lparr>header_comparison = presence_bitmap unified (headers_by_file pd' ! j),
                   rearrangement_needed =
                     (headers_by_file pd' ! j \<noteq> sort_key key_of (headers_by_file pd' ! j))\<rparr>"
    and "list_all ascii_name (headers_by_file pd' ! j)"
    and "length row = length (headers_by_file pd' ! j)"
  shows "process_record pd' j row = Inr (buffered_record unified (headers_by_file pd' ! j) row)"
proof -
  let ?hs = "headers_by_file pd' ! j"
  let ?info = "\<lparr>header_comparison = presence_bitmap unified ?hs,
                 rearrangement_needed = (?hs \<noteq> sort_key key_of ?hs)\<rparr>"
  from assms(1,3) have info: "file_info_at pd' j = Inr ?info"
    by (simp add: file_info_at_def nth_err_def)
  show ?thesis
  proof (cases "?hs \<noteq> sort_key key_of ?hs")
    case True
    then have "?hs \<noteq> []" by auto
    with assms(5) have "zip ?hs row \<noteq> []" by (cases ?hs; cases row) auto
    with assms(4) have "order_record row ?hs
        = Inr (map snd (sort_key (\<lambda>c. key_of (fst c)) (zip ?hs row)))"
      by (rule order_record_ascii)
    with True info assms(2) show ?thesis
      by (simp add: process_record_def complete_record_def nth_err_def buffered_record_def
          realign_def)
  next
    case False
    with info show ?thesis
      by (simp add: process_record_def complete_record_def buffered_record_def realign_def)
  qed
qed

subsection \<open>The loop over the rounds\<close>

lemma write_batches_files:
  "write_batches s bs = Inr s' \<Longrightarrow>
     dirs s' = dirs s
     \<and> (\<forall>f. f \<noteq> output_file default_base_directory \<longrightarrow> files s' f = files s f)
     \<and> (bs = [] \<longrightarrow> s' = s)
     \<and> (bs \<noteq> [] \<longrightarrow> files s' (output_file default_base_directory)
           = Some ((case files s (output_file default_base_directory) of None \<Rightarrow> [] | Some old \<Rightarrow> old)
                   @ concat (map appendBatch_spec bs)))"
proof (induction bs arbitrary: s)
  case Nil
  then show ?case by simp
next
  case (Cons b bs)
  let ?f = "output_file default_base_directory"
  from Cons.prems obtain s1 where a: "append_file s ?f (appendBatch_spec b) = Inr s1"
    and w: "write_batches s1 bs = Inr s'"
    by (auto split: sum.splits)
  from a have s1: "dirs s1 = dirs s"
    "files s1 = (files s)(?f \<mapsto> (case files s ?f of None \<Rightarrow> [] | Some old \<Rightarrow> old) @ appendBatch_spec b)"
    by (auto simp: append_file_def split: if_splits)
  from Cons.IH [OF w] s1 show ?case
    by (cases "bs = []") auto
qed

lemma rounds_loop_run:
  assumes "\<forall>t\<in>set rounds. process_tuple pd 0 t [] = Inr (R t)"
    and "\<forall>a\<in>set buf \<union> set (concat (map R rounds)).
           \<forall>b\<in>set buf \<union> set (concat (map R rounds)). comparable (take 3 a) (take 3 b)"
    and "dirname (output_file default_base_directory) \<in> dirs s"
  shows "\<exists>s' buf' pw' batches.
           rounds_loop thr pd rounds (s, buf, pw) = Inr (s', buf', pw')
           \<and> write_batches s batches = Inr s'
           \<and> pw' = (pw \<or> batches \<noteq> [])
           \<and> (\<forall>b\<in>set batches. sorted (map (take 2) b) \<and> thr < length b)
           \<and> mset (concat batches) + mset buf' = mset buf + mset (concat (map R rounds))"
  using assms
proof (induction rounds arbitrary: s buf pw)
  case Nil
  have "write_batches s [] = Inr s" by simp
  then show ?case by (intro exI [of _ s] exI [of _ buf] exI [of _ pw] exI [of _ "[]"]) simp
next
  case (Cons t ts)
  let ?f = "output_file default_base_directory"
  from Cons.prems(1) have tuple: "process_tuple pd 0 t [] = Inr (R t)"
    and rest: "\<forall>t\<in>set ts. process_tuple pd 0 t [] = Inr (R t)" by auto
  show ?case
  proof (cases "thr < length buf")
    case True
    let ?b = "sort_key (take 2) buf"
    have "py_sort (take 2) buf = Inr ?b"
    proof (rule py_sort_Inr)
      fix a b assume "a \<in> set buf" "b \<in> set buf"
      with Cons.prems(2) have "comparable (take 3 a) (take 3 b)" by auto
      then show "comparable (take 2 a) (take 2 b)" by (rule comparable_take2)
    qed
    moreover from Cons.prems(3) obtain s1 where
      app: "append_file s ?f (appendBatch_spec ?b) = Inr s1" and d1: "dirs s1 = dirs s"
      by (auto simp: append_file_def)
    ultimately have step: "round_step thr pd t (s, buf, pw) = Inr (s1, R t, True)"
      using True tuple process_tuple_acc [of pd 0 t "[]"]
      by (simp add: round_step_def partial_flush_eq)
    have comp: "\<forall>a\<in>set (R t) \<union> set (concat (map R ts)).
           \<forall>b\<in>set (R t) \<union> set (concat (map R ts)). comparable (take 3 a) (take 3 b)"
      using Cons.prems(2) by auto
    from d1 Cons.prems(3) have "dirname ?f \<in> dirs s1" by simp
    from Cons.IH [OF rest comp this, of True]
    obtain s' buf' pw' batches where
      loop: "rounds_loop thr pd ts (s1, R t, True) = Inr (s', buf', pw')"
      and w: "write_batches s1 batches = Inr s'"
      and sorted: "\<forall>b\<in>set batches. sorted (map (take 2) b) \<and> thr < length b"
      and count: "mset (concat batches) + mset buf' = mset (R t) + mset (concat (map R ts))"
      and flag: "pw' = (True \<or> batches \<noteq> [])"
      by blast
    from step loop have "rounds_loop thr pd (t # ts) (s, buf, pw) = Inr (s', buf', pw')"
      by simp
    moreover from app w have "write_batches s (?b # batches) = Inr s'" by simp
    moreover from flag have "pw' = (pw \<or> ?b # batches \<noteq> [])" by simp
    moreover from sorted True
    have "\<forall>b\<in>set (?b # batches). sorted (map (take 2) b) \<and> thr < length b" by simp
    moreover from count
    have "mset (concat (?b # batches)) + mset buf' = mset buf + mset (concat (map R (t # ts)))"
      by (simp add: ac_simps)
    ultimately show ?thesis by blast
  next
    case False
    with tuple have step: "round_step thr pd t (s, buf, pw) = Inr (s, buf @ R t, pw)"
      using process_tuple_acc [of pd 0 t buf] by (simp add: round_step_def)
    have comp: "\<forall>a\<in>set (buf @ R t) \<union> set (concat (map R ts)).
           \<forall>b\<in>set (buf @ R t) \<union> set (concat (map R ts)). comparable (take 3 a) (take 3 b)"
      using Cons.prems(2) by auto
    from Cons.IH [OF rest comp Cons.prems(3), of pw]
    obtain s' buf' pw' batches where
      loop: "rounds_loop thr pd ts (s, buf @ R t, pw) = Inr (s', buf', pw')"
      and w: "write_batches s batches = Inr s'"
      and sorted: "\<forall>b\<in>set batches. sorted (map (take 2) b) \<and> thr < length b"
      and count: "mset (concat batches) + mset buf' = mset (buf @ R t) + mset (concat (map R ts))"
      and flag: "pw' = (pw \<or> batches \<noteq> [])"
      by blast
    from step loop have "rounds_loop thr pd (t # ts) (s, buf, pw) = Inr (s', buf', pw')"
      by simp
    moreover from count
    have "mset (concat batches) + mset buf' = mset buf + mset (concat (map R (t # ts)))"
      by (simp add: ac_simps)
    ultimately show ?thesis using w sorted flag by blast
  qed
qed

subsection \<open>The groups of rounds between two flushes\<close>

lemma group_rounds_not_Nil: "group_rounds thr cur rs \<noteq> []"
  by (induction rs arbitrary: cur) auto

lemma butlast_group_rounds_Cons:
  "butlast (cur # group_rounds thr cur' rs) = cur # butlast (group_rounds thr cur' rs)"
  by (simp add: group_rounds_not_Nil)

lemma last_group_rounds_Cons:
  "last (cur # group_rounds thr cur' rs) = last (group_rounds thr cur' rs)"
  by (simp add: group_rounds_not_Nil)

lemma concat_group_rounds: "concat (group_rounds thr cur rs) = cur @ rs"
  by (induction rs arbitrary: cur) auto

lemma group_rounds_flushed:
  "g \<in> set (butlast (group_rounds thr cur rs)) \<Longrightarrow> thr < length (concat g)"
proof (induction rs arbitrary: cur)
  case Nil
  then show ?case by simp
next
  case (Cons r rs)
  show ?case
  proof (cases "thr < length (concat cur)")
    case True
    with Cons.prems have "g = cur \<or> g \<in> set (butlast (group_rounds thr [r] rs))"
      by (simp add: butlast_group_rounds_Cons del: butlast.simps)
    with True Cons.IH show ?thesis by blast
  next
    case False
    with Cons.prems have "g \<in> set (butlast (group_rounds thr (cur @ [r]) rs))" by simp
    then show ?thesis by (rule Cons.IH)
  qed
qed

lemma group_rounds_minimal:
  "length (concat (butlast cur)) \<le> thr \<Longrightarrow> g \<in> set (group_rounds thr cur rs)
     \<Longrightarrow> length (concat (butlast g)) \<le> thr"
proof (induction rs arbitrary: cur)
  case Nil
  then show ?case by simp
next
  case (Cons r rs)
  show ?case
  proof (cases "thr < length (concat cur)")
    case True
    with Cons.prems(2) have "g = cur \<or> g \<in> set (group_rounds thr [r] rs)" by simp
    then show ?thesis
    proof
      assume "g = cur"
      with Cons.prems(1) show ?thesis by simp
    next
      assume "g \<in> set (group_rounds thr [r] rs)"
      with Cons.IH [of "[r]"] show ?thesis by simp
    qed
  next
    case False
    with Cons.prems(2) have "g \<in> set (group_rounds thr (cur @ [r]) rs)" by simp
    moreover from False have "length (concat (butlast (cur @ [r]))) \<le> thr" by simp
    ultimately show ?thesis using Cons.IH [of "cur @ [r]"] by blast
  qed
qed

lemma last_group_rounds_not_Nil:
  "cur \<noteq> [] \<Longrightarrow> last (group_rounds thr cur rs) \<noteq> []"
  by (induction rs arbitrary: cur) (auto simp: group_rounds_not_Nil)

lemma group_rounds_flush_last:
  "butlast (group_rounds thr cur rs) \<noteq> [] \<Longrightarrow> last (group_rounds thr cur rs) \<noteq> []"
proof (induction rs arbitrary: cur)
  case Nil
  then show ?case by simp
next
  case (Cons r rs)
  show ?case
  proof (cases "thr < length (concat cur)")
    case True
    then show ?thesis by (simp add: group_rounds_not_Nil last_group_rounds_not_Nil)
  next
    case False
    with Cons.prems have "butlast (group_rounds thr (cur @ [r]) rs) \<noteq> []" by simp
    from Cons.IH [OF this] False show ?thesis by simp
  qed
qed

text \<open>
  The loop in terms of the rounds' own outputs. The loop returns exactly when every round
  is processed, every group that the flush test closes is sorted by the first two cells
  and appended, in order; the buffer it leaves is the last group, and the flag is set
  exactly when a group was closed.
\<close>

lemma rounds_loop_groups:
  "rounds_loop thr pd rounds (s, concat cur, pw) = Inr (s', buf', pw') \<longleftrightarrow>
     (\<exists>outs batches.
        map_err (\<lambda>t. process_tuple pd 0 t []) rounds = Inr outs
        \<and> map_err (\<lambda>g. py_sort (take 2) (concat g)) (butlast (group_rounds thr cur outs))
            = Inr batches
        \<and> write_batches s batches = Inr s'
        \<and> buf' = concat (last (group_rounds thr cur outs))
        \<and> pw' = (pw \<or> batches \<noteq> []))"
proof (induction rounds arbitrary: s cur pw)
  case Nil
  show ?case by auto
next
  case (Cons t ts)
  let ?f = "output_file default_base_directory"
  show ?case
  proof (cases "process_tuple pd 0 t []")
    case (Inl e)
    then have "round_step thr pd t (s, concat cur, pw) = Inl e \<or>
        (\<exists>e'. round_step thr pd t (s, concat cur, pw) = Inl e')"
      by (auto simp: round_step_def process_tuple_acc [of pd 0 t "concat cur"] split: sum.splits)
    with Inl show ?thesis by auto
  next
    case (Inr r)
    show ?thesis
    proof (cases "thr < length (concat cur)")
      case True
      have groups: "group_rounds thr cur (r # outs) = cur # group_rounds thr [r] outs" for outs
        using True by simp
      have step: "round_step thr pd t (s, concat cur, pw) =
          (case py_sort (take 2) (concat cur) of
             Inl e \<Rightarrow> Inl e
           | Inr b \<Rightarrow> (case append_file s ?f (appendBatch_spec b) of
                         Inl e \<Rightarrow> Inl e | Inr s1 \<Rightarrow> Inr (s1, concat [r], True)))"
        using True Inr by (simp add: round_step_def partial_flush_eq split: sum.splits)
      show ?thesis
      proof (cases "py_sort (take 2) (concat cur)")
        case (Inl e)
        with step Inr True show ?thesis
          by (auto simp: groups butlast_group_rounds_Cons simp del: butlast.simps
              split: sum.splits)
      next
        case b: (Inr b)
        show ?thesis
        proof (cases "append_file s ?f (appendBatch_spec b)")
          case (Inl e)
          with step b Inr True show ?thesis
            by (auto simp: groups butlast_group_rounds_Cons simp del: butlast.simps
                split: sum.splits)
        next
          case s1: (Inr s1)
          from step b s1 have
            "rounds_loop thr pd (t # ts) (s, concat cur, pw) = rounds_loop thr pd ts (s1, concat [r], True)"
            by simp
          also have "\<dots> = Inr (s', buf', pw') \<longleftrightarrow>
             (\<exists>outs batches.
                map_err (\<lambda>t. process_tuple pd 0 t []) ts = Inr outs
                \<and> map_err (\<lambda>g. py_sort (take 2) (concat g)) (butlast (group_rounds thr [r] outs))
                    = Inr batches
                \<and> write_batches s1 batches = Inr s'
                \<and> buf' = concat (last (group_rounds thr [r] outs))
                \<and> pw' = (True \<or> batches \<noteq> []))"
            by (rule Cons.IH)
          finally show ?thesis
            using Inr b s1 True
            by (auto simp: groups butlast_group_rounds_Cons last_group_rounds_Cons
                simp del: butlast.simps last.simps concat.simps split: sum.splits)
        qed
      qed
    next
      case False
      have groups: "group_rounds thr cur (r # outs) = group_rounds thr (cur @ [r]) outs" for outs
        using False by simp
      have step: "round_step thr pd t (s, concat cur, pw) = Inr (s, concat (cur @ [r]), pw)"
        using False Inr
        by (simp add: round_step_def process_tuple_acc [of pd 0 t "concat cur"])
      then have
        "rounds_loop thr pd (t # ts) (s, concat cur, pw)
           = rounds_loop thr pd ts (s, concat (cur @ [r]), pw)"
        by simp
      also have "\<dots> = Inr (s', buf', pw') \<longleftrightarrow>
         (\<exists>outs batches.
            map_err (\<lambda>t. process_tuple pd 0 t []) ts = Inr outs
            \<and> map_err (\<lambda>g. py_sort (take 2) (concat g)) (butlast (group_rounds thr (cur @ [r]) outs))
                = Inr batches
            \<and> write_batches s batches = Inr s'
            \<and> buf' = concat (last (group_rounds thr (cur @ [r]) outs))
            \<and> pw' = (pw \<or> batches \<noteq> []))"
        by (rule Cons.IH)
      finally show ?thesis
        using Inr False
        by (auto simp: groups simp del: butlast.simps last.simps concat.simps split: sum.splits)
    qed
  qed
qed

subsection \<open>A whole run\<close>

lemma rounds_loop_Inr_D:
  "rounds_loop thr pd rounds (s, buf, pw) = Inr (s', buf', pw') \<Longrightarrow>
     \<exists>batches. write_batches s batches = Inr s'
       \<and> pw' = (pw \<or> batches \<noteq> [])
       \<and> (\<forall>b\<in>set batches. sorted (map (take 2) b) \<and> thr < length b)"
proof (induction rounds arbitrary: s buf pw)
  case Nil
  then have "write_batches s [] = Inr s'" "pw' = pw" by auto
  then show ?case by (intro exI [of _ "[]"]) simp
next
  case (Cons t ts)
  let ?f = "output_file default_base_directory"
  from Cons.prems obtain s1 buf1 pw1 where
    step: "round_step thr pd t (s, buf, pw) = Inr (s1, buf1, pw1)"
    and loop: "rounds_loop thr pd ts (s1, buf1, pw1) = Inr (s', buf', pw')"
    by (auto split: sum.splits)
  from Cons.IH [OF loop] obtain batches where
    w: "write_batches s1 batches = Inr s'"
    and flag: "pw' = (pw1 \<or> batches \<noteq> [])"
    and sorted: "\<forall>b\<in>set batches. sorted (map (take 2) b) \<and> thr < length b"
    by blast
  show ?case
  proof (cases "thr < length buf")
    case True
    with step obtain b where
      b: "py_sort (take 2) buf = Inr b"
      and app: "append_file s ?f (appendBatch_spec b) = Inr s1"
      and pw1: "pw1 = True"
      by (auto simp: round_step_def partial_flush_eq split: sum.splits)
    from b have "b = sort_key (take 2) buf" by (simp add: py_sort_Inr_iff)
    with True have "sorted (map (take 2) b)" "thr < length b" by simp_all
    with sorted have "\<forall>b\<in>set (b # batches). sorted (map (take 2) b) \<and> thr < length b"
      by simp
    moreover from app w have "write_batches s (b # batches) = Inr s'" by simp
    moreover from flag pw1 have "pw' = (pw \<or> b # batches \<noteq> [])" by simp
    ultimately show ?thesis by blast
  next
    case False
    with step have "s1 = s" "pw1 = pw"
      by (auto simp: round_step_def split: sum.splits)
    with w flag sorted show ?thesis by blast
  qed
qed

lemma process_data_at_Inr_D:
  assumes "process_data_at thr s pd gens = Inr (s', pd', pw, final)"
  shows "\<exists>batches. write_batches s batches = Inr s'
           \<and> pw = (batches \<noteq> [])
           \<and> (\<forall>b\<in>set batches. sorted (map (take 2) b) \<and> thr < length b)
           \<and> sorted (map (take 3) final)"
proof -
  from assms obtain pd1 buf where
    loop: "rounds_loop thr pd1 (zip_longest gens) (s, [], False) = Inr (s', buf, pw)"
    and final: "py_sort (take 3) buf = Inr final"
    by (auto simp: process_data_at_def split: sum.splits)
  from final have "final = sort_key (take 3) buf" by (simp add: py_sort_Inr_iff)
  then have "sorted (map (take 3) final)" by simp
  with rounds_loop_Inr_D [OF loop] show ?thesis by auto
qed

lemma process_data_at_run:
  assumes n1: "length (file_names pd) = length gens"
    and n2: "length (headers_by_file pd) = length gens"
    and dist: "distinct (file_names pd)"
    and ascii: "\<forall>hs\<in>set (headers_by_file pd). list_all ascii_name hs"
    and shape: "\<forall>j<length gens. \<forall>row\<in>set (gens ! j). length row = length (headers_by_file pd ! j)"
    and keys: "\<forall>a\<in>set (buffered_records pd gens). \<forall>b\<in>set (buffered_records pd gens).
                 comparable (take 3 a) (take 3 b)"
    and dir: "dirname (output_file default_base_directory) \<in> dirs s"
  shows "\<exists>s' pd' pw final batches.
           process_data_at thr s pd gens = Inr (s', pd', pw, final)
           \<and> write_batches s batches = Inr s'
           \<and> pw = (batches \<noteq> [])
           \<and> (\<forall>b\<in>set batches. sorted (map (take 2) b) \<and> thr < length b)
           \<and> sorted (map (take 3) final)
           \<and> mset (concat batches) + mset final = mset (buffered_records pd gens)"
proof -
  let ?F = "\<lambda>j. buffered_record (headers pd) (headers_by_file pd ! j)"
  let ?R = "tuple_map ?F 0"
  from n1 n2 have "length (file_names pd) = length (headers_by_file pd)" by simp
  from file_processing_loop_lookup [OF this dist ascii, of "headers pd" "file_processing_data pd"]
  obtain fpd where
    loop: "file_processing_loop (headers pd) (zip (file_names pd) (headers_by_file pd))
             (file_processing_data pd) = Inr fpd"
    and look: "\<forall>i<length (file_names pd). fpd (file_names pd ! i)
                 = Some \<lparr>header_comparison = presence_bitmap (headers pd) (headers_by_file pd ! i),
                         rearrangement_needed =
                           (headers_by_file pd ! i \<noteq> sort_key key_of (headers_by_file pd ! i))\<rparr>"
    by blast
  let ?pd = "pd\<lparr>file_processing_data := fpd\<rparr>"
  from loop have made: "make_file_processing_data pd = Inr ?pd"
    by (simp add: make_file_processing_data_def)
  have tuples: "\<forall>t\<in>set (zip_longest gens). process_tuple ?pd 0 t [] = Inr (?R t)"
  proof
    fix t assume t: "t \<in> set (zip_longest gens)"
    have "process_tuple ?pd 0 t [] = Inr ([] @ tuple_map ?F 0 t)"
    proof (rule process_tuple_map)
      fix j d assume j: "j < length t" and d: "t ! j = Some d"
      from zip_longest_tuples [OF t] j d have jn: "j < length gens" and mem: "d \<in> set (gens ! j)"
        by auto
      from jn n2 ascii have "list_all ascii_name (headers_by_file pd ! j)" by simp
      moreover from shape jn mem have "length d = length (headers_by_file pd ! j)" by simp
      ultimately have "process_record ?pd j d
          = Inr (buffered_record (headers pd) (headers_by_file ?pd ! j) d)"
        using jn n1 n2 look by (intro process_record_buffered) simp_all
      then show "process_record ?pd (0 + j) d = Inr (?F (0 + j) d)" by simp
    qed
    then show "process_tuple ?pd 0 t [] = Inr (?R t)" by simp
  qed
  have all: "mset (concat (map ?R (zip_longest gens))) = mset (buffered_records pd gens)"
    by (simp add: mset_zip_longest buffered_records_def)
  then have sets: "set (concat (map ?R (zip_longest gens))) = set (buffered_records pd gens)"
    by (rule mset_eq_setD)
  from keys sets have comp: "\<forall>a\<in>set [] \<union> set (concat (map ?R (zip_longest gens))).
      \<forall>b\<in>set [] \<union> set (concat (map ?R (zip_longest gens))). comparable (take 3 a) (take 3 b)"
    by simp
  from rounds_loop_run [OF tuples comp dir, of thr False]
  obtain s' buf' pw' batches where
    run: "rounds_loop thr ?pd (zip_longest gens) (s, [], False) = Inr (s', buf', pw')"
    and w: "write_batches s batches = Inr s'"
    and flag: "pw' = (batches \<noteq> [])"
    and sorted: "\<forall>b\<in>set batches. sorted (map (take 2) b) \<and> thr < length b"
    and count: "mset (concat batches) + mset buf' = mset (concat (map ?R (zip_longest gens)))"
    by auto
  from count all have count': "mset (concat batches) + mset buf' = mset (buffered_records pd gens)"
    by simp
  then have "set buf' \<subseteq> set (buffered_records pd gens)"
    by (metis mset_subset_eq_add_right set_mset_mono set_mset_mset)
  with keys have "py_sort (take 3) buf' = Inr (sort_key (take 3) buf')"
    by (intro py_sort_Inr) auto
  with made run have "process_data_at thr s pd gens = Inr (s', ?pd, pw', sort_key (take 3) buf')"
    by (simp add: process_data_at_def)
  moreover have "sorted (map (take 3) (sort_key (take 3) buf'))" by simp
  moreover from count' have "mset (concat batches) + mset (sort_key (take 3) buf')
      = mset (buffered_records pd gens)" by simp
  ultimately show ?thesis using w flag sorted by blast
qed

subsection \<open>An example run\<close>

text \<open>
  Two sources over the unified schema D1, D2: \<^verbatim>\<open>a.csv\<close> with the columns D1, D2 and three
  records, \<^verbatim>\<open>b.csv\<close> with the columns D2, D1 (to be realigned) and one record. At
  threshold 1 the buffer of the first round (two records) is flushed before the second
  round; rounds 2 and 3 pull nothing from \<^verbatim>\<open>b.csv\<close>.
\<close>

lemmas run_eval =
  process_data_at_def make_file_processing_data_def round_step_def partial_flush_def
  WriteData_init_def get_file_generator_def FileGeneratorFactory_init_def new_generator_def
  write_data_def set_data_def append_file_def dirname_def default_base_directory_def
  default_file_name_def default_extension_def output_file_def process_record_def
  file_info_at_def nth_err_def complete_record_def complete_cells_def complete_cell_def
  order_record_def zip_longest.simps

lemma example_run:
  "process_data_at 1 example_fs example_pd example_records
   = Inr (\<lparr>dirs = {str ''../data/result/''},
           files = [str ''../data/result/result.tsv'' \<mapsto>
                      str ''0'' @ [9] @ str ''z'' @ [9, 10] @ str ''1'' @ [9] @ str ''a'' @ [9]]\<rparr>,
          example_pd\<lparr>file_processing_data :=
             [str ''a.csv'' \<mapsto> \<lparr>header_comparison = [True, True], rearrangement_needed = False\<rparr>,
              str ''b.csv'' \<mapsto> \<lparr>header_comparison = [True, True], rearrangement_needed = True\<rparr>]\<rparr>,
          True,
          [[PStr (str ''2''), PStr (str ''b'')], [PStr (str ''3''), PStr (str ''c'')]])"
  by (simp add: example_fs_def example_pd_def example_records_def run_eval key_eval)

subsection \<open>How the batches of a run are sorted\<close>

text \<open>
  Claim C7. Whenever the engine returns, it returns the flag and the final batch; the
  file system it leaves is the one it was given with the partial batches appended, in
  order, to the file of \<^verbatim>\<open>WriteData()\<close> and nothing else changed: the final batch is not
  written, and with no partial write the file system is untouched. Every partial batch
  is sorted by the first two cells of its records, the final batch by the first three,
  and the flag says whether there was a partial batch. Under the conditions of a
  well-formed run the engine does return. The statement is for every threshold, so also
  for the program's.
\<close>

theorem process_data_batches_sorted:
  "(\<forall>s' pd' pw final.
      process_data_at thr s pd gens = Inr (s', pd', pw, final) \<longrightarrow>
        (\<exists>batches. write_batches s batches = Inr s'
           \<and> pw = (batches \<noteq> [])
           \<and> (\<forall>b\<in>set batches. sorted (map (take 2) b) \<and> thr < length b)
           \<and> sorted (map (take 3) final)
           \<and> dirs s' = dirs s
           \<and> (\<forall>f. f \<noteq> output_file default_base_directory \<longrightarrow> files s' f = files s f)
           \<and> (batches = [] \<longrightarrow> s' = s)
           \<and> (batches \<noteq> [] \<longrightarrow> files s' (output_file default_base_directory)
                 = Some ((case files s (output_file default_base_directory) of
                            None \<Rightarrow> [] | Some old \<Rightarrow> old)
                         @ concat (map appendBatch_spec batches)))))
   \<and> (length (file_names pd) = length gens
        \<and> length (headers_by_file pd) = length gens
        \<and> distinct (file_names pd)
        \<and> (\<forall>hs\<in>set (headers_by_file pd). list_all ascii_name hs)
        \<and> (\<forall>j<length gens. \<forall>row\<in>set (gens ! j). length row = length (headers_by_file pd ! j))
        \<and> (\<forall>a\<in>set (buffered_records pd gens). \<forall>b\<in>set (buffered_records pd gens).
              comparable (take 3 a) (take 3 b))
        \<and> dirname (output_file default_base_directory) \<in> dirs s
      \<longrightarrow> (\<exists>s' pd' pw final. process_data_at thr s pd gens = Inr (s', pd', pw, final)))"
proof (intro conjI allI impI)
  fix s' pd' pw final
  assume "process_data_at thr s pd gens = Inr (s', pd', pw, final)"
  from process_data_at_Inr_D [OF this] obtain batches where
    w: "write_batches s batches = Inr s'"
    and rest: "pw = (batches \<noteq> [])"
      "\<forall>b\<in>set batches. sorted (map (take 2) b) \<and> thr < length b"
      "sorted (map (take 3) final)"
    by blast
  from write_batches_files [OF w] w rest
  show "\<exists>batches. write_batches s batches = Inr s'
           \<and> pw = (batches \<noteq> [])
           \<and> (\<forall>b\<in>set batches. sorted (map (take 2) b) \<and> thr < length b)
           \<and> sorted (map (take 3) final)
           \<and> dirs s' = dirs s
           \<and> (\<forall>f. f \<noteq> output_file default_base_directory \<longrightarrow> files s' f = files s f)
           \<and> (batches = [] \<longrightarrow> s' = s)
           \<and> (batches \<noteq> [] \<longrightarrow> files s' (output_file default_base_directory)
                 = Some ((case files s (output_file default_base_directory) of
                            None \<Rightarrow> [] | Some old \<Rightarrow> old)
                         @ concat (map appendBatch_spec batches)))"
    by (intro exI [of _ batches]) simp
next
  assume "length (file_names pd) = length gens
        \<and> length (headers_by_file pd) = length gens
        \<and> distinct (file_names pd)
        \<and> (\<forall>hs\<in>set (headers_by_file pd). list_all ascii_name hs)
        \<and> (\<forall>j<length gens. \<forall>row\<in>set (gens ! j). length row = length (headers_by_file pd ! j))
        \<and> (\<forall>a\<in>set (buffered_records pd gens). \<forall>b\<in>set (buffered_records pd gens).
              comparable (take 3 a) (take 3 b))
        \<and> dirname (output_file default_base_directory) \<in> dirs s"
  then show "\<exists>s' pd' pw final. process_data_at thr s pd gens = Inr (s', pd', pw, final)"
    using process_data_at_run [of pd gens s thr] by blast
qed

theorem process_data_batches_sorted_witness:
  "\<exists>s' pd' batches.
     process_data_at 1 example_fs example_pd example_records
       = Inr (s', pd', True, [[PStr (str ''2''), PStr (str ''b'')], [PStr (str ''3''), PStr (str ''c'')]])
     \<and> write_batches example_fs batches = Inr s'
     \<and> batches \<noteq> []
     \<and> list_all (\<lambda>b. sorted (map (take 2) b)) batches
     \<and> files s' (str ''../data/result/result.tsv'')
         = Some (str ''0'' @ [9] @ str ''z'' @ [9, 10] @ str ''1'' @ [9] @ str ''a'' @ [9])
     \<and> sorted (map (take 3) [[PStr (str ''2''), PStr (str ''b'')], [PStr (str ''3''), PStr (str ''c'')]])"
proof -
  let ?final = "[[PStr (str ''2''), PStr (str ''b'')], [PStr (str ''3''), PStr (str ''c'')]]"
  from example_run obtain s' pd' where
    run: "process_data_at 1 example_fs example_pd example_records = Inr (s', pd', True, ?final)"
    and content: "files s' (str ''../data/result/result.tsv'')
         = Some (str ''0'' @ [9] @ str ''z'' @ [9, 10] @ str ''1'' @ [9] @ str ''a'' @ [9])"
    by simp
  from process_data_batches_sorted [of 1 example_fs example_pd example_records] run
  obtain batches where "write_batches example_fs batches = Inr s'"
    and "True = (batches \<noteq> [])"
    and "\<forall>b\<in>set batches. sorted (map (take 2) b) \<and> 1 < length b"
    and "sorted (map (take 3) ?final)"
    by blast
  with run content show ?thesis
    by (auto simp: list_all_iff)
qed

subsection \<open>Flushes at round boundaries\<close>

text \<open>
  Claim C6. The records that one round appends to the buffer are the output of the round;
  \<open>outs\<close> lists the outputs of the rounds of a run, in order. The engine returns exactly
  when the descriptors are built, every round is processed, every flushed batch is sorted
  and appended to the file of \<^verbatim>\<open>WriteData()\<close>, and the last buffer is sorted; the flushed
  batches are then the groups of \<open>group_rounds\<close> but the last, each sorted by the first
  two cells of its records, the flag says whether there was one, and the final batch is
  the last group sorted by the first three cells. The groups cut the list of the rounds'
  outputs into consecutive runs of whole rounds, so no round's output is split by a flush
  and no record is in two batches: the buffer is empty after a flush. A group is flushed
  only when it holds more than \<open>threshold\<close> records, and no group held more than
  \<open>threshold\<close> records before its last round: the flush comes at the first round boundary
  at which the buffer exceeds the threshold. The round that follows a flush goes to the
  next group, so the last group is not empty after a flush. The statement is for every
  threshold; the program's is 52000.
\<close>

theorem process_data_flushes_at_round_boundaries:
  "(process_data_at thr s pd gens = Inr (s', pd', pw, final) \<longleftrightarrow>
      (\<exists>outs batches.
         make_file_processing_data pd = Inr pd'
         \<and> map_err (\<lambda>t. process_tuple pd' 0 t []) (zip_longest gens) = Inr outs
         \<and> map_err (\<lambda>g. py_sort (take 2) (concat g)) (butlast (group_rounds thr [] outs))
             = Inr batches
         \<and> write_batches s batches = Inr s'
         \<and> pw = (batches \<noteq> [])
         \<and> py_sort (take 3) (concat (last (group_rounds thr [] outs))) = Inr final))
   \<and> concat (group_rounds thr [] rounds) = rounds
   \<and> group_rounds thr [] rounds \<noteq> []
   \<and> (\<forall>g\<in>set (butlast (group_rounds thr [] rounds)). thr < length (concat g))
   \<and> (\<forall>g\<in>set (group_rounds thr [] rounds). length (concat (butlast g)) \<le> thr)
   \<and> (butlast (group_rounds thr [] rounds) \<noteq> [] \<longrightarrow> last (group_rounds thr [] rounds) \<noteq> [])
   \<and> process_data s pd gens = process_data_at flush_threshold s pd gens
   \<and> flush_threshold = 52000"
proof -
  have loop: "rounds_loop thr p ts (s, [], False) = Inr (s', buf, pw) \<longleftrightarrow>
     (\<exists>outs batches.
        map_err (\<lambda>t. process_tuple p 0 t []) ts = Inr outs
        \<and> map_err (\<lambda>g. py_sort (take 2) (concat g)) (butlast (group_rounds thr [] outs))
            = Inr batches
        \<and> write_batches s batches = Inr s'
        \<and> buf = concat (last (group_rounds thr [] outs))
        \<and> pw = (batches \<noteq> []))" for p ts buf
    using rounds_loop_groups [of thr p ts s "[]" False s' buf pw] by simp
  have run: "process_data_at thr s pd gens = Inr (s', pd', pw, final) \<longleftrightarrow>
      (\<exists>outs batches.
         make_file_processing_data pd = Inr pd'
         \<and> map_err (\<lambda>t. process_tuple pd' 0 t []) (zip_longest gens) = Inr outs
         \<and> map_err (\<lambda>g. py_sort (take 2) (concat g)) (butlast (group_rounds thr [] outs))
             = Inr batches
         \<and> write_batches s batches = Inr s'
         \<and> pw = (batches \<noteq> [])
         \<and> py_sort (take 3) (concat (last (group_rounds thr [] outs))) = Inr final)"
  proof (cases "make_file_processing_data pd")
    case (Inl e)
    then show ?thesis by (simp add: process_data_at_def)
  next
    case made: (Inr p)
    have "process_data_at thr s pd gens = Inr (s', pd', pw, final) \<longleftrightarrow>
        p = pd' \<and> (\<exists>buf. rounds_loop thr p (zip_longest gens) (s, [], False) = Inr (s', buf, pw)
                      \<and> py_sort (take 3) buf = Inr final)"
      using made by (auto simp: process_data_at_def split: sum.splits)
    also have "\<dots> \<longleftrightarrow> p = pd' \<and>
        (\<exists>outs batches.
           map_err (\<lambda>t. process_tuple p 0 t []) (zip_longest gens) = Inr outs
           \<and> map_err (\<lambda>g. py_sort (take 2) (concat g)) (butlast (group_rounds thr [] outs))
               = Inr batches
           \<and> write_batches s batches = Inr s'
           \<and> pw = (batches \<noteq> [])
           \<and> py_sort (take 3) (concat (last (group_rounds thr [] outs))) = Inr final)"
      unfolding loop by blast
    finally show ?thesis using made by auto
  qed
  have minimal: "\<forall>g\<in>set (group_rounds thr [] rounds). length (concat (butlast g)) \<le> thr"
    using group_rounds_minimal [of "[]" thr _ rounds] by simp
  have flushed: "\<forall>g\<in>set (butlast (group_rounds thr [] rounds)). thr < length (concat g)"
    using group_rounds_flushed [of _ thr "[]" rounds] by blast
  have whole: "concat (group_rounds thr [] rounds) = rounds"
    by (simp add: concat_group_rounds)
  from run whole minimal flushed group_rounds_not_Nil [of thr "[]" rounds]
    group_rounds_flush_last [of thr "[]" rounds]
  show ?thesis
    by (simp add: process_data_def flush_threshold_def)
qed

theorem process_data_flushes_at_round_boundaries_witness:
  "\<exists>s' pd' outs batches.
     process_data_at 1 example_fs example_pd example_records
       = Inr (s', pd', True, [[PStr (str ''2''), PStr (str ''b'')], [PStr (str ''3''), PStr (str ''c'')]])
     \<and> map_err (\<lambda>t. process_tuple pd' 0 t []) (zip_longest example_records) = Inr outs
     \<and> map_err (\<lambda>g. py_sort (take 2) (concat g)) (butlast (group_rounds 1 [] outs)) = Inr batches
     \<and> write_batches example_fs batches = Inr s'
     \<and> batches \<noteq> []
     \<and> py_sort (take 3) (concat (last (group_rounds 1 [] outs)))
          = Inr [[PStr (str ''2''), PStr (str ''b'')], [PStr (str ''3''), PStr (str ''c'')]]
     \<and> concat (group_rounds 1 [] outs) = outs
     \<and> list_all (\<lambda>g. 1 < length (concat g)) (butlast (group_rounds 1 [] outs))
     \<and> list_all (\<lambda>g. length (concat (butlast g)) \<le> 1) (group_rounds 1 [] outs)
     \<and> last (group_rounds 1 [] outs) \<noteq> []"
proof -
  let ?final = "[[PStr (str ''2''), PStr (str ''b'')], [PStr (str ''3''), PStr (str ''c'')]]"
  from example_run obtain s' pd' where
    run: "process_data_at 1 example_fs example_pd example_records = Inr (s', pd', True, ?final)"
    by simp
  with process_data_flushes_at_round_boundaries
         [of 1 example_fs example_pd example_records s' pd' True ?final]
  obtain outs batches where
    outs: "map_err (\<lambda>t. process_tuple pd' 0 t []) (zip_longest example_records) = Inr outs"
    and batches: "map_err (\<lambda>g. py_sort (take 2) (concat g)) (butlast (group_rounds 1 [] outs))
        = Inr batches"
    and w: "write_batches example_fs batches = Inr s'" "batches \<noteq> []"
    and final: "py_sort (take 3) (concat (last (group_rounds 1 [] outs))) = Inr ?final"
    by blast
  from batches w(2) have "butlast (group_rounds 1 [] outs) \<noteq> []" by auto
  with process_data_flushes_at_round_boundaries
         [of 1 example_fs example_pd example_records s' pd' True ?final outs]
  have "concat (group_rounds 1 [] outs) = outs"
    "list_all (\<lambda>g. 1 < length (concat g)) (butlast (group_rounds 1 [] outs))"
    "list_all (\<lambda>g. length (concat (butlast g)) \<le> 1) (group_rounds 1 [] outs)"
    "last (group_rounds 1 [] outs) \<noteq> []"
    by (simp_all only: list_all_iff) blast+
  with run outs batches w final show ?thesis by blast
qed

subsection \<open>Sources with different columns\<close>

text \<open>
  Claim C5. The specification has every input record emitted once, realigned and padded
  to the unified schema, also when the sources have different columns (its testable
  property 5); the docstring of \<^verbatim>\<open>sort_headers\<close> says that "the implementation works in
  case files contain different headers, even missing some of them". The program does not.
  On the input of property 5, source A with the columns D1, D2, M1 and the row (1, 2, x),
  source B with the columns D1, M1, M2 and the row (1, y, z), the unified schema is
  D1, D2, M1, M2 and the descriptors are built, but the record of B is buffered as
  (1, None, z, None): the cell y is lost, and z is under M1. Then the final sort compares
  the cell 2 of the first record with the None of the second and raises
  \<^verbatim>\<open>TypeError\<close>, so that the run emits no record at all. The sort raises also on the
  records padded with the next cell at each true bit of the bitmap, (1, 2, x, None) and
  (1, None, y, z): that padding alone would not make the run return.
\<close>

theorem process_data_different_columns_raises:
  "\<exists>pd2 pd3.
     sort_headers sorted_order
        ((ProcessData_init (str ''in/''))\<lparr>file_names := map fst property5_sources,
            headers_by_file := map (\<lambda>src. fst (snd src)) property5_sources\<rparr>) = Inr pd2
     \<and> headers pd2 = [str ''D1'', str ''D2'', str ''M1'', str ''M2'']
     \<and> make_file_processing_data pd2 = Inr pd3
     \<and> process_record pd3 0 [PStr (str ''1''), PStr (str ''2''), PStr (str ''x'')]
         = Inr [PStr (str ''1''), PStr (str ''2''), PStr (str ''x''), PNone]
     \<and> process_record pd3 1 [PStr (str ''1''), PStr (str ''y''), PStr (str ''z'')]
         = Inr [PStr (str ''1''), PNone, PStr (str ''z''), PNone]
     \<and> py_sort (take 3) [[PStr (str ''1''), PStr (str ''2''), PStr (str ''x''), PNone],
                          [PStr (str ''1''), PNone, PStr (str ''z''), PNone]] = Inl TypeError
     \<and> py_sort (take 3) [[PStr (str ''1''), PStr (str ''2''), PStr (str ''x''), PNone],
                          [PStr (str ''1''), PNone, PStr (str ''y''), PStr (str ''z'')]] = Inl TypeError
     \<and> process_data \<lparr>dirs = {str ''in/'', str ''in/result/''},
                       files = [str ''in/result/result.tsv'' \<mapsto> []]\<rparr> pd2
          (map (\<lambda>src. snd (snd src)) property5_sources) = Inl TypeError
     \<and> main_process_data sorted_order \<lparr>dirs = {str ''in/''}, files = Map.empty\<rparr> (str ''in/'')
          property5_sources = Inl TypeError"
proof -
  let ?p = "str ''in/''"
  let ?hs = "[str ''D1'', str ''D2'', str ''M1'', str ''M2'']"
  let ?gens = "map (\<lambda>src. snd (snd src)) property5_sources"
  let ?pd1 = "(ProcessData_init ?p)\<lparr>file_names := map fst property5_sources,
            headers_by_file := map (\<lambda>src. fst (snd src)) property5_sources\<rparr>"
  let ?pd2 = "?pd1\<lparr>headers := ?hs\<rparr>"
  let ?pd3 = "?pd2\<lparr>file_processing_data :=
      [str ''a.csv'' \<mapsto> \<lparr>header_comparison = [True, True, True, False], rearrangement_needed = False\<rparr>,
       str ''b.csv'' \<mapsto> \<lparr>header_comparison = [True, False, True, True], rearrangement_needed = False\<rparr>]\<rparr>"
  let ?w = "\<lparr>directory = ?p @ str ''result/'', file_generator = Some (TSVFileGenerator (str ''in/result/result.tsv''))\<rparr>"
  have "\<Union> (set ` set (headers_by_file ?pd1)) = set ?hs"
    by (auto simp: property5_sources_def)
  then have order: "sorted_order (\<Union> (set ` set (headers_by_file ?pd1))) = ?hs"
    by (simp only: sorted_order_def sorted_list_of_set_sort_remdups) (simp add: str_def)
  have "gather_headers None (headers_by_file ?pd1) = Some (\<Union> (set ` set (headers_by_file ?pd1)))"
    by (simp only: gather_headers_None) (simp add: property5_sources_def)
  then have sorted: "sort_headers sorted_order ?pd1 = Inr ?pd2"
    unfolding sort_headers_def by (simp only: order option.case) (simp add: key_eval)
  have made: "make_file_processing_data ?pd2 = Inr ?pd3"
    by (simp add: make_file_processing_data_def ProcessData_init_def property5_sources_def key_eval)
  have rec_a: "process_record ?pd3 0 [PStr (str ''1''), PStr (str ''2''), PStr (str ''x'')]
         = Inr [PStr (str ''1''), PStr (str ''2''), PStr (str ''x''), PNone]"
    by (simp add: run_eval ProcessData_init_def property5_sources_def str_def)
  have rec_b: "process_record ?pd3 1 [PStr (str ''1''), PStr (str ''y''), PStr (str ''z'')]
         = Inr [PStr (str ''1''), PNone, PStr (str ''z''), PNone]"
    by (simp add: run_eval ProcessData_init_def property5_sources_def str_def)
  have sort_a: "py_sort (take 3) [[PStr (str ''1''), PStr (str ''2''), PStr (str ''x''), PNone],
                          [PStr (str ''1''), PNone, PStr (str ''z''), PNone]] = Inl TypeError"
    by (simp add: py_sort_def comparable_def str_def)
  have sort_b: "py_sort (take 3) [[PStr (str ''1''), PStr (str ''2''), PStr (str ''x''), PNone],
                          [PStr (str ''1''), PNone, PStr (str ''y''), PStr (str ''z'')]] = Inl TypeError"
    by (simp add: py_sort_def comparable_def str_def)
  have engine: "process_data s ?pd2 ?gens = Inl TypeError" for s
    using rec_a rec_b sort_a made
    by (simp add: process_data_def flush_threshold_def process_data_at_def round_step_def
        zip_longest.simps property5_sources_def)
  have writer: "WriteData_init ?p default_file_name default_extension = Inr (?w, [])"
    using WriteData_init_default [of ?p]
    by (simp add: output_file_def default_file_name_def default_extension_def str_def)
  have main: "main_process_data sorted_order \<lparr>dirs = {str ''in/''}, files = Map.empty\<rparr> ?p
          property5_sources = Inl TypeError"
  proof -
    have written: "\<exists>s1. write_headers \<lparr>dirs = {?p}, files = Map.empty\<rparr> ?w ?hs = Inr s1"
      by (simp add: write_headers_def create_result_directory_def parent_directory_def dirname_def
          set_headers_def write_file_def str_def)
    then obtain s1 where "write_headers \<lparr>dirs = {?p}, files = Map.empty\<rparr> ?w ?hs = Inr s1" ..
    then show ?thesis
      using engine [unfolded process_data_def, of s1]
      by (simp add: main_process_data_def main_process_data_at_def writer sorted)
  qed
  from sorted made rec_a rec_b sort_a sort_b engine main show ?thesis
    by (intro exI [of _ ?pd2] exI [of _ ?pd3]) simp
qed

theorem process_data_different_columns_raises_witness:
  "isl (main_process_data sorted_order \<lparr>dirs = {str ''in/''}, files = Map.empty\<rparr> (str ''in/'')
          property5_sources)"
  using process_data_different_columns_raises by auto

section \<open>Where the output goes\<close>

lemma zip_longest_single_replicate: "zip_longest [replicate n x] = replicate n [Some x]"
proof (induction n)
  case 0
  show ?case by (simp add: zip_longest_all_empty)
next
  case (Suc n)
  then show ?case by (simp add: zip_longest_step)
qed

lemma rounds_loop_append:
  "rounds_loop thr pd (xs @ ys) st =
     (case rounds_loop thr pd xs st of Inl e \<Rightarrow> Inl e | Inr st' \<Rightarrow> rounds_loop thr pd ys st')"
  by (induction xs arbitrary: st) (auto split: sum.splits)

lemma rounds_loop_replicate:
  assumes "process_tuple pd 0 t [] = Inr [r]"
  shows "length buf + n \<le> Suc thr \<Longrightarrow>
     rounds_loop thr pd (replicate n t) (s, buf, pw) = Inr (s, buf @ replicate n r, pw)"
proof (induction n arbitrary: buf)
  case 0
  show ?case by simp
next
  case (Suc n)
  then have "\<not> thr < length buf" by simp
  with assms have "round_step thr pd t (s, buf, pw) = Inr (s, buf @ [r], pw)"
    using process_tuple_acc [of pd 0 t buf] by (simp add: round_step_def)
  moreover from Suc.prems have "length (buf @ [r]) + n \<le> Suc thr" by simp
  from Suc.IH [OF this]
  have "rounds_loop thr pd (replicate n t) (s, buf @ [r], pw)
      = Inr (s, buf @ replicate (Suc n) r, pw)"
    by (simp add: replicate_app_Cons_same)
  ultimately show ?case by simp
qed

lemma py_sort_replicate: "py_sort key (replicate n r) = Inr (replicate n r)"
proof -
  have "py_sort key (replicate n r) = Inr (sort_key key (replicate n r))"
    by (rule py_sort_Inr) (auto simp: comparable_refl)
  moreover have "sort_key key (replicate n r) = replicate n r"
    by (rule sort_key_id_if_sorted) (simp add: sorted_replicate)
  ultimately show ?thesis by simp
qed

text \<open>
  Claim C2. All writes of one run should go to one file under the \<^verbatim>\<open>result\<close>
  subdirectory of the directory the user chose. The header and the final batch do:
  \<^verbatim>\<open>main.process_data\<close> builds its sink with \<^verbatim>\<open>WriteData(path)\<close>. The partial writes do
  not: the engine builds a sink of its own with \<^verbatim>\<open>WriteData()\<close>, whose base directory
  is the default \<^verbatim>\<open>'../data/'\<close>. For the directory \<^verbatim>\<open>/tmp/in/\<close> holding one CSV file
  with the column D1 and 52002 records, the buffer holds 52001 records before the last
  round and is flushed: when \<^verbatim>\<open>../data/result/\<close> does not exist the run ends with
  \<^verbatim>\<open>FileNotFoundError\<close> for \<^verbatim>\<open>../data/result/result.tsv\<close>; when it exists the 52001
  records go to that file, and only the header and the last record reach
  \<^verbatim>\<open>/tmp/in/result/result.tsv\<close>.
\<close>

theorem partial_write_goes_to_default_directory:
  "main_process_data sorted_order
     \<lparr>dirs = {str ''/tmp/in/''}, files = Map.empty\<rparr>
     (str ''/tmp/in/'')
     [(str ''a.csv'', [str ''D1''], replicate 52002 [PStr (str ''x'')])]
   = Inl (FileNotFoundError (str ''../data/result/result.tsv''))
   \<and> main_process_data sorted_order
     \<lparr>dirs = {str ''/tmp/in/'', str ''../data/result/''}, files = Map.empty\<rparr>
     (str ''/tmp/in/'')
     [(str ''a.csv'', [str ''D1''], replicate 52002 [PStr (str ''x'')])]
   = Inr \<lparr>dirs = {str ''/tmp/in/result/'', str ''/tmp/in/'', str ''../data/result/''},
          files = [str ''/tmp/in/result/result.tsv'' \<mapsto> str ''D1'' @ [10] @ str ''x'' @ [9],
                   str ''../data/result/result.tsv'' \<mapsto>
                     appendBatch_spec (replicate 52001 [PStr (str ''x'')])]\<rparr>"
proof -
  let ?p = "str ''/tmp/in/''"
  let ?r = "[PStr (str ''x'')]"
  let ?out = "str ''/tmp/in/result/result.tsv''"
  let ?def = "str ''../data/result/result.tsv''"
  let ?w = "\<lparr>directory = ?p @ str ''result/'', file_generator = Some (TSVFileGenerator ?out)\<rparr>"
  let ?pd1 = "(ProcessData_init ?p)\<lparr>file_names := [str ''a.csv''], headers_by_file := [[str ''D1'']]\<rparr>"
  let ?pd2 = "?pd1\<lparr>headers := [str ''D1'']\<rparr>"
  let ?pd3 = "?pd2\<lparr>file_processing_data :=
      [str ''a.csv'' \<mapsto> \<lparr>header_comparison = [True], rearrangement_needed = False\<rparr>]\<rparr>"
  have writer: "WriteData_init ?p default_file_name default_extension = Inr (?w, [])"
    using WriteData_init_default [of ?p]
    by (simp add: output_file_def default_file_name_def default_extension_def str_def)
  have sorted: "sort_headers sorted_order ?pd1 = Inr ?pd2"
    by (simp add: sort_headers_def ProcessData_init_def sorted_order_def key_eval)
  have made: "make_file_processing_data ?pd2 = Inr ?pd3"
    by (simp add: make_file_processing_data_def ProcessData_init_def key_eval)
  have tuple: "process_tuple ?pd3 0 [Some ?r] [] = Inr [?r]"
    by (simp add: process_record_def file_info_at_def nth_err_def complete_record_def
        complete_cells_def complete_cell_def ProcessData_init_def)
  have "replicate 52002 [Some ?r] = replicate (Suc 52001) [Some ?r]" by simp
  also have "\<dots> = replicate 52001 [Some ?r] @ [[Some ?r]]"
    by (simp only: replicate_Suc replicate_append_same)
  finally have rounds: "zip_longest [replicate 52002 ?r] = replicate 52001 [Some ?r] @ [[Some ?r]]"
    by (simp only: zip_longest_single_replicate)
  have loop: "rounds_loop 52000 ?pd3 (replicate 52001 [Some ?r]) (s, [], False)
      = Inr (s, replicate 52001 ?r, False)" for s
    using rounds_loop_replicate [OF tuple, of "[]" 52001 52000 s False] by simp
  have flush: "partial_flush s (replicate 52001 ?r)
      = append_file s ?def (appendBatch_spec (replicate 52001 ?r))" for s
    by (simp add: partial_flush_eq py_sort_replicate output_file_def default_base_directory_def
        default_file_name_def default_extension_def str_def)
  have last: "round_step 52000 ?pd3 [Some ?r] (s, replicate 52001 ?r, False)
      = (case append_file s ?def (appendBatch_spec (replicate 52001 ?r)) of
           Inl e \<Rightarrow> Inl e | Inr s' \<Rightarrow> Inr (s', [?r], True))" for s
    using tuple by (simp add: round_step_def flush split: sum.splits)
  have engine: "process_data_at 52000 s ?pd2 [replicate 52002 ?r]
      = (case append_file s ?def (appendBatch_spec (replicate 52001 ?r)) of
           Inl e \<Rightarrow> Inl e | Inr s' \<Rightarrow> Inr (s', ?pd3, True, [?r]))" for s
    using py_sort_replicate [of "take 3" 1 ?r]
    by (simp add: process_data_at_def made rounds rounds_loop_append loop last split: sum.splits)
  have main: "main_process_data sorted_order s ?p
        [(str ''a.csv'', [str ''D1''], replicate 52002 ?r)]
      = (case write_headers s ?w [str ''D1''] of
           Inl e \<Rightarrow> Inl e
         | Inr s1 \<Rightarrow>
             (case append_file s1 ?def (appendBatch_spec (replicate 52001 ?r)) of
                Inl e \<Rightarrow> Inl e
              | Inr s2 \<Rightarrow> write_data s2 ?w [?r]))" for s
    by (simp add: main_process_data_def main_process_data_at_def flush_threshold_def writer
        sorted engine split: sum.splits)
  have headers_A: "write_headers \<lparr>dirs = {?p}, files = Map.empty\<rparr> ?w [str ''D1'']
      = Inr \<lparr>dirs = {str ''/tmp/in/result/'', ?p}, files = [?out \<mapsto> str ''D1'' @ [10]]\<rparr>"
    by (simp add: write_headers_def create_result_directory_def parent_directory_def dirname_def
        set_headers_def write_file_def str_def)
  have headers_B: "write_headers \<lparr>dirs = {?p, str ''../data/result/''}, files = Map.empty\<rparr> ?w [str ''D1'']
      = Inr \<lparr>dirs = {str ''/tmp/in/result/'', ?p, str ''../data/result/''},
             files = [?out \<mapsto> str ''D1'' @ [10]]\<rparr>"
    by (simp add: write_headers_def create_result_directory_def parent_directory_def dirname_def
        set_headers_def write_file_def str_def)
  have A: "main_process_data sorted_order \<lparr>dirs = {?p}, files = Map.empty\<rparr> ?p
        [(str ''a.csv'', [str ''D1''], replicate 52002 ?r)]
      = Inl (FileNotFoundError ?def)"
    by (simp add: main headers_A) (simp add: append_file_def dirname_def str_def)
  have B: "main_process_data sorted_order
        \<lparr>dirs = {?p, str ''../data/result/''}, files = Map.empty\<rparr> ?p
        [(str ''a.csv'', [str ''D1''], replicate 52002 ?r)]
      = Inr \<lparr>dirs = {str ''/tmp/in/result/'', ?p, str ''../data/result/''},
          files = [?out \<mapsto> str ''D1'' @ [10] @ str ''x'' @ [9],
                   ?def \<mapsto> appendBatch_spec (replicate 52001 ?r)]\<rparr>"
    by (simp add: main headers_B)
      (simp add: append_file_def dirname_def write_data_def set_data_def str_def fun_upd_twist)
  from A B show ?thesis by simp
qed

theorem partial_write_goes_to_default_directory_witness:
  "\<exists>s'. main_process_data sorted_order
     \<lparr>dirs = {str ''/tmp/in/'', str ''../data/result/''}, files = Map.empty\<rparr>
     (str ''/tmp/in/'')
     [(str ''a.csv'', [str ''D1''], replicate 52002 [PStr (str ''x'')])] = Inr s'
   \<and> files s' (output_file (str ''/tmp/in/'')) = Some (str ''D1'' @ [10] @ str ''x'' @ [9])
   \<and> files s' (output_file default_base_directory)
        = Some (appendBatch_spec (replicate 52001 [PStr (str ''x'')]))
   \<and> output_file (str ''/tmp/in/'') \<noteq> output_file default_base_directory"
  using partial_write_goes_to_default_directory
  by (simp add: output_file_def default_base_directory_def default_file_name_def
      default_extension_def str_def)

end
